theory Spec2Isabelle
  imports Complex_Main "HOL-Library.Sublist"
begin

section \<open>Values, documents and texts\<close>

text \<open>
  A document of the store is a flat field map from field names to values. The values the
  pipeline handles are strings, numbers, timestamps and Python's \<open>None\<close>. Floating-point
  numbers are abstracted as reals, and a timestamp is a natural number of clock ticks.
  A Python string is the list of its Unicode code points, so that \<open>length\<close> counts what
  \<open>len\<close> counts; \<open>str\<close> turns a literal into its code points. Field names, language
  codes and sentiment labels are program literals and stay HOL strings.
\<close>

type_synonym pystr = "nat list"

definition str :: "string \<Rightarrow> pystr" where
  "str s = map of_char s"

datatype val = VNone | VStr pystr | VNum real | VTime nat

type_synonym document = "string \<rightharpoonup> val"

datatype error =
  KeyError | TypeError | LangDetectException | ServiceError | StoreFault

text \<open>\<open>doc.get(key, default)\<close>: the default is used only when the key is missing.\<close>

definition get :: "document \<Rightarrow> string \<Rightarrow> val \<Rightarrow> val" where
  "get doc k dflt = (case doc k of None \<Rightarrow> dflt | Some v \<Rightarrow> v)"

text \<open>Python truthiness, as \<open>not text\<close> tests it.\<close>

fun truthy :: "val \<Rightarrow> bool" where
  "truthy VNone = False"
| "truthy (VStr s) = (s \<noteq> [])"
| "truthy (VNum x) = (x \<noteq> 0)"
| "truthy (VTime t) = True"

section \<open>The Normalizer's text transform (preprocessing.py)\<close>

text \<open>
  Whitespace is what \<open>str.isspace\<close> accepts; \<open>\s\<close> of a Unicode pattern and
  \<open>str.split()\<close> use the same set: the ASCII controls 9 to 13 and 28 to 31, the space,
  U+0085, U+00A0, U+1680, U+2000 to U+200A, U+2028, U+2029, U+202F, U+205F and U+3000.
\<close>

definition is_space :: "nat \<Rightarrow> bool" where
  "is_space n =
     ((9 \<le> n \<and> n \<le> 13) \<or> (28 \<le> n \<and> n \<le> 32) \<or> n = 133 \<or> n = 160 \<or> n = 5760
      \<or> (8192 \<le> n \<and> n \<le> 8202) \<or> n = 8232 \<or> n = 8233 \<or> n = 8239 \<or> n = 8287
      \<or> n = 12288)"

definition is_ascii_letter :: "nat \<Rightarrow> bool" where
  "is_ascii_letter n = ((65 \<le> n \<and> n \<le> 90) \<or> (97 \<le> n \<and> n \<le> 122))"

text \<open>
  \<open>text.lower()\<close>. An ASCII code point lowercases on its own: \<open>A-Z\<close> move 32 up and
  the others stay. Unicode's lowercase mapping of the code points from 128 on (a table of
  the interpreter, with its context rule for the final sigma and its one-to-many
  entries) is the parameter \<open>ulower\<close>: \<open>ulower whole i\<close> is the lowercase of the code
  point at position \<open>i\<close> of the text \<open>whole\<close>.
\<close>

definition lower_ascii :: "nat \<Rightarrow> nat" where
  "lower_ascii c = (if 65 \<le> c \<and> c \<le> 90 then c + 32 else c)"

fun lower_from :: "(pystr \<Rightarrow> nat \<Rightarrow> pystr) \<Rightarrow> pystr \<Rightarrow> nat \<Rightarrow> pystr \<Rightarrow> pystr" where
  "lower_from ulower whole i [] = []"
| "lower_from ulower whole i (c # cs) =
     (if c < 128 then [lower_ascii c] else ulower whole i)
     @ lower_from ulower whole (Suc i) cs"

definition lower_str :: "(pystr \<Rightarrow> nat \<Rightarrow> pystr) \<Rightarrow> pystr \<Rightarrow> pystr" where
  "lower_str ulower text0 = lower_from ulower text0 0 text0"

text \<open>
  \<open>re.sub(r'<.*?>', '', text)\<close>: at a \<open><\<close> (60), the lazy \<open>.*?\<close> runs to the nearest
  \<open>>\<close> (62), and \<open>.\<close> does not match a newline (10); \<open>tag_end\<close> returns what follows
  the tag, or \<open>None\<close> when no tag starts here.
\<close>

fun tag_end :: "pystr \<Rightarrow> pystr option" where
  "tag_end [] = None"
| "tag_end (d # ds) =
     (if d = 62 then Some ds
      else if d = 10 then None
      else tag_end ds)"

lemma tag_end_length: "tag_end cs = Some r \<Longrightarrow> length r < Suc (length cs)"
  by (induction cs) (auto split: if_splits)

function sub_html :: "pystr \<Rightarrow> pystr" where
  "sub_html [] = []"
| "sub_html (c # cs) =
     (if c = 60 then
        (case tag_end cs of
           Some r \<Rightarrow> sub_html r
         | None \<Rightarrow> c # sub_html cs)
      else c # sub_html cs)"
  by pat_completeness auto
termination
  by (relation "measure length") (auto dest: tag_end_length)

fun remove_html :: "val \<Rightarrow> pystr" where
  "remove_html (VStr text0) = sub_html text0"
| "remove_html _ = []"

text \<open>
  \<open>re.sub(r'http\S+|www\S+|https\S+', '', text)\<close>: an alternative matches its literal
  followed by at least one non-whitespace character, and the greedy \<open>\S+\<close> takes the
  whole run of non-whitespace characters. The alternatives are tried in the order written.
\<close>

definition url_match :: "pystr \<Rightarrow> pystr \<Rightarrow> pystr option" where
  "url_match lit s =
     (if take (length lit) s = lit then
        (case drop (length lit) s of
           [] \<Rightarrow> None
         | d # ds \<Rightarrow> if is_space d then None else Some (dropWhile (\<lambda>c. \<not> is_space c) ds))
      else None)"

definition url_at :: "pystr \<Rightarrow> pystr option" where
  "url_at s =
     (case url_match (str ''http'') s of
        Some r \<Rightarrow> Some r
      | None \<Rightarrow>
          (case url_match (str ''www'') s of
             Some r \<Rightarrow> Some r
           | None \<Rightarrow> url_match (str ''https'') s))"

lemma url_match_length: "url_match lit s = Some r \<Longrightarrow> length r < length s"
proof -
  assume a: "url_match lit s = Some r"
  then obtain d ds where d: "drop (length lit) s = d # ds"
    and r: "r = dropWhile (\<lambda>c. \<not> is_space c) ds"
    by (auto simp: url_match_def split: if_splits list.splits)
  have "length r \<le> length ds" using r by (simp add: length_dropWhile_le)
  moreover have "length (d # ds) \<le> length s" using d [symmetric] by simp
  ultimately show ?thesis by simp
qed

lemma url_at_length: "url_at s = Some r \<Longrightarrow> length r < length s"
  by (auto simp: url_at_def split: option.splits dest: url_match_length)

function sub_urls :: "pystr \<Rightarrow> pystr" where
  "sub_urls [] = []"
| "sub_urls (c # cs) =
     (case url_at (c # cs) of
        Some r \<Rightarrow> sub_urls r
      | None \<Rightarrow> c # sub_urls cs)"
  by pat_completeness auto
termination
  by (relation "measure length") (auto dest: url_at_length)

fun remove_urls :: "val \<Rightarrow> pystr" where
  "remove_urls (VStr text0) = sub_urls text0"
| "remove_urls _ = []"

text \<open>\<open>re.sub(r'[^a-zA-Z\s]', '', text)\<close> keeps ASCII letters and whitespace.\<close>

fun remove_special_chars :: "val \<Rightarrow> pystr" where
  "remove_special_chars (VStr text0) = filter (\<lambda>c. is_ascii_letter c \<or> is_space c) text0"
| "remove_special_chars _ = []"

text \<open>\<open>text.split()\<close>: the maximal runs of non-whitespace characters.\<close>

fun split_acc :: "pystr \<Rightarrow> pystr \<Rightarrow> pystr list" where
  "split_acc cur [] = (if cur = [] then [] else [cur])"
| "split_acc cur (c # cs) =
     (if is_space c then (if cur = [] then split_acc [] cs else cur # split_acc [] cs)
      else split_acc (cur @ [c]) cs)"

definition py_split :: "pystr \<Rightarrow> pystr list" where
  "py_split text0 = split_acc [] text0"

text \<open>\<open>' '.join(tokens)\<close>.\<close>

fun join_space :: "pystr list \<Rightarrow> pystr" where
  "join_space [] = []"
| "join_space [t] = t"
| "join_space (t # ts) = t @ [32] @ join_space ts"

text \<open>
  \<open>preprocess_text\<close>. The stopword set and the lemmatizer are NLTK's; they are the
  parameters \<open>stop_words\<close> and \<open>lemmatize\<close>.
\<close>

definition preprocess_text ::
  "pystr set \<Rightarrow> (pystr \<Rightarrow> pystr) \<Rightarrow> (pystr \<Rightarrow> nat \<Rightarrow> pystr) \<Rightarrow> val \<Rightarrow> pystr" where
  "preprocess_text stop_words lemmatize ulower v =
     (case v of
        VStr text0 \<Rightarrow>
          if text0 = [] then []
          else
            let text1 = lower_str ulower text0;
                text2 = remove_html (VStr text1);
                text3 = remove_urls (VStr text2);
                text4 = remove_special_chars (VStr text3);
                tokens = py_split text4;
                clean_tokens =
                  map lemmatize (filter (\<lambda>token. token \<notin> stop_words \<and> length token > 2) tokens)
            in join_space clean_tokens
      | _ \<Rightarrow> [])"

text \<open>
  What the two substitutions are about: \<open>has_tag s\<close> holds when a tag span starts
  somewhere in \<open>s\<close>, \<open>has_url s\<close> when a URL-shaped substring does.
\<close>

fun has_tag :: "pystr \<Rightarrow> bool" where
  "has_tag [] = False"
| "has_tag (c # cs) = (if c = 60 \<and> tag_end cs \<noteq> None then True else has_tag cs)"

fun has_url :: "pystr \<Rightarrow> bool" where
  "has_url [] = False"
| "has_url (c # cs) = (if url_at (c # cs) = None then has_url cs else True)"

section \<open>The document store\<close>

text \<open>
  Modelled from the spec: the store is pymongo's, an external collaborator that is not
  part of the repository; \<open>update_one({"url": u}, {"$set": doc}, upsert=True)\<close> follows
  the upsert contract of the specification: if a document with the key exists, its fields
  are overwritten by the fields of \<open>doc\<close> (a flat merge), otherwise a new document made of
  the filter and of \<open>doc\<close> is appended; the result tells which one happened. A filter on
  \<open>None\<close> also matches a document without the field, which is why the key of a document
  without \<open>url\<close> is \<open>VNone\<close>. A collection is the list of its documents in insertion
  order, which is the order \<open>find()\<close> scans them in. The store counts the write calls it
  receives, and the environment decides which calls fail: \<open>fails n\<close> tells whether the
  \<open>n\<close>-th call raises.
\<close>

record store =
  docs :: "document list"
  attempts :: nat

datatype upsert_tag = INSERTED | UPDATED

definition key_of :: "document \<Rightarrow> val" where
  "key_of d = get d ''url'' VNone"

fun set_first :: "val \<Rightarrow> document \<Rightarrow> document list \<Rightarrow> document list" where
  "set_first u d [] = []"
| "set_first u d (x # xs) =
     (if key_of x = u then (x ++ d) # xs else x # set_first u d xs)"

definition upsert :: "val \<Rightarrow> document \<Rightarrow> document list \<Rightarrow> upsert_tag \<times> document list" where
  "upsert u d c =
     (if u \<in> set (map key_of c) then (UPDATED, set_first u d c)
      else (INSERTED, c @ [[''url'' \<mapsto> u] ++ d]))"

definition update_one ::
  "(nat \<Rightarrow> bool) \<Rightarrow> val \<Rightarrow> document \<Rightarrow> store \<Rightarrow> (error + upsert_tag) \<times> store" where
  "update_one fails u d s =
     (let s' = s\<lparr>attempts := attempts s + 1\<rparr> in
      if fails (attempts s) then (Inl StoreFault, s')
      else (case upsert u d (docs s) of (tag, c) \<Rightarrow> (Inr tag, s'\<lparr>docs := c\<rparr>)))"

datatype log_entry =
    LogSaveError error
  | LogBulkIndexed nat
  | LogBulkErrors nat
  | LogBulkException error

section \<open>The Normalizer (preprocessing.py)\<close>

text \<open>\<open>TextPreprocessor.process_documents\<close>: one processed document per raw document.\<close>

definition processed_doc :: "pystr set \<Rightarrow> (pystr \<Rightarrow> pystr) \<Rightarrow> (pystr \<Rightarrow> nat \<Rightarrow> pystr) \<Rightarrow> document \<Rightarrow> document" where
  "processed_doc stop_words lemmatize ulower doc =
     (let title = get doc ''title'' (VStr []);
          content = get doc ''content'' (VStr []);
          author = get doc ''author'' (VStr (str ''unknown''));
          date = get doc ''date'' VNone;
          url = get doc ''url'' (VStr [])
      in [''title'' \<mapsto> VStr (preprocess_text stop_words lemmatize ulower title),
          ''content'' \<mapsto> VStr (preprocess_text stop_words lemmatize ulower content),
          ''author'' \<mapsto> author,
          ''date'' \<mapsto> date,
          ''url'' \<mapsto> url])"

fun process_documents ::
  "pystr set \<Rightarrow> (pystr \<Rightarrow> pystr) \<Rightarrow> (pystr \<Rightarrow> nat \<Rightarrow> pystr) \<Rightarrow> document list \<Rightarrow> document list" where
  "process_documents stop_words lemmatize ulower [] = []"
| "process_documents stop_words lemmatize ulower (doc # rest) =
     processed_doc stop_words lemmatize ulower doc # process_documents stop_words lemmatize ulower rest"

text \<open>
  \<open>save_to_mongodb\<close>: the loop state is the store, the two counters and the error log.
  \<open>doc["url"]\<close> raises \<open>KeyError\<close> inside the \<open>try\<close> when the field is missing, before
  any write is attempted. The function returns \<open>inserted_count\<close>.
\<close>

record save_state =
  saved :: store
  inserted_count :: nat
  skipped_count :: nat
  logged :: "log_entry list"

definition save_one :: "(nat \<Rightarrow> bool) \<Rightarrow> document \<Rightarrow> save_state \<Rightarrow> save_state" where
  "save_one fails doc st =
     (case doc ''url'' of
        None \<Rightarrow> st\<lparr>logged := logged st @ [LogSaveError KeyError]\<rparr>
      | Some u \<Rightarrow>
          (case update_one fails u doc (saved st) of
             (Inl e, s') \<Rightarrow> st\<lparr>saved := s', logged := logged st @ [LogSaveError e]\<rparr>
           | (Inr tag, s') \<Rightarrow>
               if tag = INSERTED
               then st\<lparr>saved := s', inserted_count := inserted_count st + 1\<rparr>
               else st\<lparr>saved := s', skipped_count := skipped_count st + 1\<rparr>))"

fun save_loop :: "(nat \<Rightarrow> bool) \<Rightarrow> document list \<Rightarrow> save_state \<Rightarrow> save_state" where
  "save_loop fails [] st = st"
| "save_loop fails (doc # rest) st = save_loop fails rest (save_one fails doc st)"

definition save_to_mongodb :: "(nat \<Rightarrow> bool) \<Rightarrow> document list \<Rightarrow> store \<Rightarrow> save_state" where
  "save_to_mongodb fails processed_docs s =
     (let st0 = \<lparr>saved = s, inserted_count = 0, skipped_count = 0, logged = []\<rparr> in
      if processed_docs = [] then st0 else save_loop fails processed_docs st0)"

text \<open>One run of the stage, as \<open>preprocess_data\<close> of main.py and the module's own main do it.\<close>

definition normalizer_run ::
  "pystr set \<Rightarrow> (pystr \<Rightarrow> pystr) \<Rightarrow> (pystr \<Rightarrow> nat \<Rightarrow> pystr) \<Rightarrow> (nat \<Rightarrow> bool) \<Rightarrow> document list \<Rightarrow> store \<Rightarrow> save_state" where
  "normalizer_run stop_words lemmatize ulower fails raw s =
     save_to_mongodb fails (process_documents stop_words lemmatize ulower raw) s"

section \<open>The Enricher (nlp_pipeline.py)\<close>

text \<open>
  \<open>detect_language\<close>. The detector is langdetect's \<open>detect\<close>, the parameter \<open>detect\<close>:
  it is the detector as it answers at this call, and it returns a language code or raises. The second component of the result lists the
  arguments of the calls made to the detector. \<open>len\<close> of a number or of a timestamp
  raises \<open>TypeError\<close>.
\<close>

fun detect_language ::
  "(pystr \<Rightarrow> error + string) \<Rightarrow> val \<Rightarrow> (error + string) \<times> pystr list" where
  "detect_language detect (VStr text) =
     (if text = [] \<or> length text < 3 then (Inr ''unknown'', [])
      else
        (case detect (take 1000 text) of
           Inr lang \<Rightarrow> (Inr lang, [take 1000 text])
         | Inl LangDetectException \<Rightarrow> (Inr ''unknown'', [take 1000 text])
         | Inl e \<Rightarrow> (Inl e, [take 1000 text])))"
| "detect_language detect v =
     (if \<not> truthy v then (Inr ''unknown'', []) else (Inl TypeError, []))"

text \<open>
  \<open>analyze_sentiment\<close>. \<open>textblob\<close> stands for \<open>TextBlob(text).sentiment.polarity\<close>,
  which returns the polarity or raises; \<open>TextBlob\<close> rejects a text that is not a string.
\<close>

record sentiment_result =
  polarity :: real
  sentiment :: string

fun analyze_sentiment ::
  "(pystr \<Rightarrow> error + real) \<Rightarrow> val \<Rightarrow> string \<Rightarrow> error + sentiment_result" where
  "analyze_sentiment textblob text language =
     (if \<not> truthy text then Inr \<lparr>polarity = 0, sentiment = ''neutral''\<rparr>
      else
        (case text of
           VStr s \<Rightarrow>
             (case textblob s of
                Inl e \<Rightarrow> Inl e
              | Inr p \<Rightarrow>
                  Inr \<lparr>polarity = p,
                       sentiment = (if p > 0.1 then ''positive''
                                    else if p < - 0.1 then ''negative''
                                    else ''neutral'')\<rparr>)
         | _ \<Rightarrow> Inl TypeError))"

text \<open>
  The body of the loop of \<open>NLPProcessor.process_documents\<close> up to the \<open>try\<close>: the
  enriched document, or the exception that leaves the loop. \<open>now\<close> is the reading of
  the clock taken for \<open>enriched_at\<close>.
\<close>

definition enriched_doc ::
  "(pystr \<Rightarrow> error + string) \<Rightarrow> (pystr \<Rightarrow> error + real) \<Rightarrow> nat \<Rightarrow> document
     \<Rightarrow> error + document" where
  "enriched_doc detect textblob now doc =
     (let content = get doc ''content'' (VStr []) in
      case fst (detect_language detect content) of
        Inl e \<Rightarrow> Inl e
      | Inr language \<Rightarrow>
          (case analyze_sentiment textblob content language of
             Inl e \<Rightarrow> Inl e
           | Inr sentiment_result \<Rightarrow>
               Inr [''title'' \<mapsto> get doc ''title'' (VStr []),
                    ''content'' \<mapsto> content,
                    ''author'' \<mapsto> get doc ''author'' (VStr (str ''unknown'')),
                    ''date'' \<mapsto> get doc ''date'' VNone,
                    ''url'' \<mapsto> get doc ''url'' (VStr []),
                    ''language'' \<mapsto> VStr (str language),
                    ''sentiment'' \<mapsto> VStr (str (sentiment sentiment_result)),
                    ''polarity'' \<mapsto> VNum (polarity sentiment_result),
                    ''enriched_at'' \<mapsto> VTime now]))"

text \<open>
  The loop state: the enriched collection, the counter, the error log and the exception
  that ended the loop, if any. The \<open>try\<close> covers \<open>doc["url"]\<close> and the write.
\<close>

record enrich_state =
  enriched :: store
  processed_count :: nat
  nlp_logged :: "log_entry list"
  raised :: "error option"

definition save_enriched ::
  "(nat \<Rightarrow> bool) \<Rightarrow> document \<Rightarrow> document \<Rightarrow> enrich_state \<Rightarrow> enrich_state" where
  "save_enriched fails doc edoc st =
     (case doc ''url'' of
        None \<Rightarrow> st\<lparr>nlp_logged := nlp_logged st @ [LogSaveError KeyError]\<rparr>
      | Some u \<Rightarrow>
          (case update_one fails u edoc (enriched st) of
             (Inl e, s') \<Rightarrow> st\<lparr>enriched := s', nlp_logged := nlp_logged st @ [LogSaveError e]\<rparr>
           | (Inr tag, s') \<Rightarrow> st\<lparr>enriched := s', processed_count := processed_count st + 1\<rparr>))"

text \<open>
  \<open>now i\<close> is the clock reading taken for the \<open>i\<close>-th document of the run, and
  \<open>detect i\<close> the detector as it answers at the call made for that document: langdetect
  draws random samples and the code never seeds it, so the same text may get another
  answer at another call or in another run. \<open>detection_failures_only\<close> says that the
  detector raises nothing but its detection failure.
\<close>

definition detection_failures_only :: "(nat \<Rightarrow> pystr \<Rightarrow> error + string) \<Rightarrow> bool" where
  "detection_failures_only detect = (\<forall>i t e. detect i t = Inl e \<longrightarrow> e = LangDetectException)"

fun enrich_loop ::
  "(nat \<Rightarrow> pystr \<Rightarrow> error + string) \<Rightarrow> (pystr \<Rightarrow> error + real) \<Rightarrow> (nat \<Rightarrow> nat) \<Rightarrow> (nat \<Rightarrow> bool)
     \<Rightarrow> nat \<Rightarrow> document list \<Rightarrow> enrich_state \<Rightarrow> enrich_state" where
  "enrich_loop detect textblob now fails i [] st = st"
| "enrich_loop detect textblob now fails i (doc # rest) st =
     (case enriched_doc (detect i) textblob (now i) doc of
        Inl e \<Rightarrow> st\<lparr>raised := Some e\<rparr>
      | Inr edoc \<Rightarrow>
          enrich_loop detect textblob now fails (Suc i) rest (save_enriched fails doc edoc st))"

definition nlp_process_documents ::
  "(nat \<Rightarrow> pystr \<Rightarrow> error + string) \<Rightarrow> (pystr \<Rightarrow> error + real) \<Rightarrow> (nat \<Rightarrow> nat) \<Rightarrow> (nat \<Rightarrow> bool)
     \<Rightarrow> document list \<Rightarrow> store \<Rightarrow> enrich_state" where
  "nlp_process_documents detect textblob now fails preprocessed s =
     enrich_loop detect textblob now fails 0 preprocessed
       \<lparr>enriched = s, processed_count = 0, nlp_logged = [], raised = None\<rparr>"

section \<open>The Publisher (es_ingest.py)\<close>

text \<open>
  \<open>transform_document\<close>: \<open>now1\<close> and \<open>now2\<close> are the two clock readings the function
  takes, the first for the default of \<open>date\<close>, the second for \<open>indexed_at\<close>.
\<close>

definition transform_document :: "nat \<Rightarrow> nat \<Rightarrow> document \<Rightarrow> document" where
  "transform_document now1 now2 doc =
     (let score = get doc ''polarity'' (VNum 0) in
      [''titre'' \<mapsto> get doc ''title'' (VStr []),
       ''contenu'' \<mapsto> get doc ''content'' (VStr []),
       ''auteur'' \<mapsto> get doc ''author'' (VStr (str ''unknown'')),
       ''date'' \<mapsto> get doc ''date'' (VTime now1),
       ''url'' \<mapsto> get doc ''url'' (VStr []),
       ''langue'' \<mapsto> get doc ''language'' (VStr (str ''unknown'')),
       ''sentiment'' \<mapsto> get doc ''sentiment'' (VStr (str ''neutral'')),
       ''score'' \<mapsto> score,
       ''indexed_at'' \<mapsto> VTime now2])"

record action =
  a_index :: string
  a_source :: document

text \<open>
  \<open>helpers.bulk(..., stats_only=True)\<close> is the parameter \<open>bulk\<close>: called with the number
  of the call and the batch, it returns the pair of counts or raises. The state of the
  Publisher is the list of batches submitted so far and the log.
\<close>

datatype bulk_outcome = BulkStats nat nat | BulkRaised error

record es_state =
  submitted :: "action list list"
  es_logged :: "log_entry list"

definition bulk_index ::
  "(nat \<Rightarrow> action list \<Rightarrow> bulk_outcome) \<Rightarrow> action list \<Rightarrow> es_state \<Rightarrow> es_state" where
  "bulk_index bulk actions st =
     (let st' = st\<lparr>submitted := submitted st @ [actions]\<rparr> in
      case bulk (length (submitted st)) actions of
        BulkStats success errors \<Rightarrow>
          st'\<lparr>es_logged := es_logged st @ [LogBulkIndexed success]
                 @ (if errors \<noteq> 0 then [LogBulkErrors errors] else [])\<rparr>
      | BulkRaised e \<Rightarrow> st'\<lparr>es_logged := es_logged st @ [LogBulkException e]\<rparr>)"

text \<open>
  The loop of \<open>index_documents\<close> with its pending \<open>actions\<close>; the flush of the rest after
  the loop is the clause for the empty list. The \<open>i\<close>-th document takes the clock
  readings \<open>now (2 * i)\<close> and \<open>now (2 * i + 1)\<close>.
\<close>

fun index_loop ::
  "(nat \<Rightarrow> action list \<Rightarrow> bulk_outcome) \<Rightarrow> (nat \<Rightarrow> nat) \<Rightarrow> string \<Rightarrow> nat \<Rightarrow> document list
     \<Rightarrow> action list \<Rightarrow> es_state \<Rightarrow> es_state" where
  "index_loop bulk now index_name i [] actions st =
     (if actions \<noteq> [] then bulk_index bulk actions st else st)"
| "index_loop bulk now index_name i (doc # rest) actions st =
     (let es_doc = transform_document (now (2 * i)) (now (2 * i + 1)) doc;
          actions' = actions @ [\<lparr>a_index = index_name, a_source = es_doc\<rparr>]
      in if length actions' \<ge> 500
         then index_loop bulk now index_name (Suc i) rest [] (bulk_index bulk actions' st)
         else index_loop bulk now index_name (Suc i) rest actions' st)"

definition index_documents ::
  "(nat \<Rightarrow> action list \<Rightarrow> bulk_outcome) \<Rightarrow> (nat \<Rightarrow> nat) \<Rightarrow> string \<Rightarrow> document list \<Rightarrow> es_state" where
  "index_documents bulk now index_name coll =
     index_loop bulk now index_name 0 coll [] \<lparr>submitted = [], es_logged = []\<rparr>"

text \<open>
  The batches as the specification words them: consecutive groups of \<open>n\<close> documents,
  the last one holding the remainder. \<open>projected\<close> is the list of bulk actions of a
  collection, and \<open>reports\<close> the log lines the outcomes of the bulk calls produce.
\<close>

function batches_of :: "nat \<Rightarrow> 'a list \<Rightarrow> 'a list list" where
  "batches_of n xs =
     (if n = 0 \<or> xs = [] then [] else take n xs # batches_of n (drop n xs))"
  by pat_completeness auto
termination
  by (relation "measure (\<lambda>(n, xs). length xs)") auto

declare batches_of.simps [simp del]

fun projected :: "(nat \<Rightarrow> nat) \<Rightarrow> string \<Rightarrow> nat \<Rightarrow> document list \<Rightarrow> action list" where
  "projected now index_name i [] = []"
| "projected now index_name i (doc # rest) =
     \<lparr>a_index = index_name,
      a_source = transform_document (now (2 * i)) (now (2 * i + 1)) doc\<rparr>
     # projected now index_name (Suc i) rest"

definition bulk_report :: "bulk_outcome \<Rightarrow> log_entry list" where
  "bulk_report outcome =
     (case outcome of
        BulkStats success errors \<Rightarrow>
          LogBulkIndexed success # (if errors \<noteq> 0 then [LogBulkErrors errors] else [])
      | BulkRaised e \<Rightarrow> [LogBulkException e])"

fun reports ::
  "(nat \<Rightarrow> action list \<Rightarrow> bulk_outcome) \<Rightarrow> nat \<Rightarrow> action list list \<Rightarrow> log_entry list" where
  "reports bulk k [] = []"
| "reports bulk k (b # bs) = bulk_report (bulk k b) @ reports bulk (Suc k) bs"


section \<open>Write sequences\<close>

text \<open>
  With no failing write, a run of a stage applies a sequence of keyed writes to a
  collection. \<open>apply_writes\<close> applies such a sequence; \<open>merged k ws\<close> is the flat merge
  of the documents written under key \<open>k\<close>, in order, and \<open>fresh K ws\<close> lists the documents
  the sequence creates for the keys outside \<open>K\<close>. \<open>writes\<close> and \<open>ewrites\<close> are the
  sequences of the Normalizer and of the Enricher; \<open>without_run_fields\<close> drops the two
  fields of an enriched document that depend on the run, \<open>enriched_at\<close> and \<open>language\<close>.
\<close>

fun merged :: "val \<Rightarrow> (val \<times> document) list \<Rightarrow> document" where
  "merged k [] = Map.empty"
| "merged k ((u, d) # ws) = (if u = k then d ++ merged k ws else merged k ws)"

fun fresh :: "val set \<Rightarrow> (val \<times> document) list \<Rightarrow> document list" where
  "fresh K [] = []"
| "fresh K ((u, d) # ws) =
     (if u \<in> K then fresh K ws
      else ([''url'' \<mapsto> u] ++ d ++ merged u ws) # fresh (insert u K) ws)"

fun apply_writes :: "(val \<times> document) list \<Rightarrow> document list \<Rightarrow> document list" where
  "apply_writes [] c = c"
| "apply_writes ((u, d) # ws) c = apply_writes ws (snd (upsert u d c))"

definition keyed :: "(val \<times> document) list \<Rightarrow> bool" where
  "keyed ws = list_all (\<lambda>(u, d). d ''url'' = Some u) ws"

fun writes :: "document list \<Rightarrow> (val \<times> document) list" where
  "writes [] = []"
| "writes (d # ds) =
     (case d ''url'' of None \<Rightarrow> writes ds | Some u \<Rightarrow> (u, d) # writes ds)"

fun ewrites ::
  "(nat \<Rightarrow> pystr \<Rightarrow> error + string) \<Rightarrow> (pystr \<Rightarrow> error + real) \<Rightarrow> (nat \<Rightarrow> nat) \<Rightarrow> nat
     \<Rightarrow> document list \<Rightarrow> (val \<times> document) list" where
  "ewrites detect textblob now i [] = []"
| "ewrites detect textblob now i (d # ds) =
     (case enriched_doc (detect i) textblob (now i) d of
        Inl e \<Rightarrow> []
      | Inr edoc \<Rightarrow>
          (case d ''url'' of
             None \<Rightarrow> ewrites detect textblob now (Suc i) ds
           | Some u \<Rightarrow> (u, edoc) # ewrites detect textblob now (Suc i) ds))"

definition without_run_fields :: "document \<Rightarrow> document" where
  "without_run_fields d = d(''enriched_at'' := None, ''language'' := None)"


section \<open>Properties of the text transform\<close>

lemma length_str [simp]: "length (str s) = length s"
  by (simp add: str_def)

lemma str_eq_iff [simp]: "str a = str b \<longleftrightarrow> a = b"
proof -
  have "inj (of_char :: char \<Rightarrow> nat)"
    by (rule injI) simp
  then show ?thesis
    unfolding str_def by (simp add: inj_map_eq_map)
qed

lemma str_eq_Nil [simp]: "str s = [] \<longleftrightarrow> s = []"
  by (simp add: str_def)

lemma take_str [simp]: "take n (str s) = str (take n s)"
  by (simp add: str_def take_map)

lemma str_Nil [simp]: "str [] = []"
  by (simp add: str_def)

lemma str_simps: "str (c # cs) = of_char c # str cs"
  by (simp add: str_def)

lemmas eval_text = preprocess_text_def str_simps lower_str_def lower_ascii_def url_at_def
  url_match_def is_space_def is_ascii_letter_def py_split_def

lemma tag_end_sub_html: "tag_end cs = None \<Longrightarrow> tag_end (sub_html cs) = None"
proof (induction cs rule: sub_html.induct)
  case 1
  then show ?case by simp
next
  case (2 c cs)
  show ?case
  proof (cases "c = 60")
    case True
    have n: "tag_end cs = None" using "2.prems" True by simp
    have "tag_end (sub_html cs) = None" using True n by (rule "2.IH"(1)) (rule n)
    then show ?thesis using True n by simp
  next
    case False
    show ?thesis
    proof (cases "c = 10")
      case True
      then show ?thesis by simp
    next
      case ten: False
      have n: "tag_end cs = None" using "2.prems" False ten by (simp split: if_splits)
      have "tag_end (sub_html cs) = None" using False by (rule "2.IH"(3)) (rule n)
      then show ?thesis using False ten "2.prems" by (simp split: if_splits)
    qed
  qed
qed

lemma no_tag_left: "\<not> has_tag (sub_html s)"
proof (induction s rule: sub_html.induct)
  case 1
  then show ?case by simp
next
  case (2 c cs)
  show ?case
  proof (cases "c = 60")
    case True
    show ?thesis
    proof (cases "tag_end cs")
      case None
      have "\<not> has_tag (sub_html cs)" using True None by (rule "2.IH"(1))
      then show ?thesis using True None tag_end_sub_html [OF None] by simp
    next
      case (Some r)
      have "\<not> has_tag (sub_html r)" using True Some by (rule "2.IH"(2))
      then show ?thesis using True Some by simp
    qed
  next
    case False
    have "\<not> has_tag (sub_html cs)" using False by (rule "2.IH"(3))
    then show ?thesis using False by simp
  qed
qed

lemma no_tag_kept: "\<not> has_tag s \<Longrightarrow> sub_html s = s"
  by (induction s) (auto split: if_splits option.splits)

lemma url_match_iff:
  "url_match lit s \<noteq> None \<longleftrightarrow> (\<exists>d ds. s = lit @ d # ds \<and> \<not> is_space d)"
proof
  assume "url_match lit s \<noteq> None"
  then obtain d ds where t: "take (length lit) s = lit" and d: "drop (length lit) s = d # ds"
    and n: "\<not> is_space d"
    by (auto simp: url_match_def split: if_splits list.splits)
  have "s = take (length lit) s @ drop (length lit) s" by simp
  then have "s = lit @ d # ds" using t d by simp
  then show "\<exists>d ds. s = lit @ d # ds \<and> \<not> is_space d" using n by blast
next
  assume "\<exists>d ds. s = lit @ d # ds \<and> \<not> is_space d"
  then show "url_match lit s \<noteq> None" by (auto simp: url_match_def)
qed

lemma url_at_iff:
  "url_at s \<noteq> None \<longleftrightarrow>
     url_match (str ''http'') s \<noteq> None \<or> url_match (str ''www'') s \<noteq> None
     \<or> url_match (str ''https'') s \<noteq> None"
  by (auto simp: url_at_def split: option.splits)

lemma url_match_head:
  "url_match lit (c # cs) \<noteq> None \<Longrightarrow> lit \<noteq> [] \<Longrightarrow> c = hd lit"
  unfolding url_match_iff by (cases lit) auto

lemma url_at_space: "is_space c \<Longrightarrow> url_at (c # cs) = None"
proof (rule ccontr)
  assume s: "is_space c" and "url_at (c # cs) \<noteq> None"
  then consider "url_match (str ''http'') (c # cs) \<noteq> None"
    | "url_match (str ''www'') (c # cs) \<noteq> None"
    | "url_match (str ''https'') (c # cs) \<noteq> None"
    unfolding url_at_iff by blast
  then have "c = 104 \<or> c = 119"
  proof cases
    case 1
    then show ?thesis using url_match_head [OF 1] by (simp add: str_simps)
  next
    case 2
    then show ?thesis using url_match_head [OF 2] by (simp add: str_simps)
  next
    case 3
    then show ?thesis using url_match_head [OF 3] by (simp add: str_simps)
  qed
  then show False using s by (auto simp: is_space_def)
qed

lemma url_rest_space: "url_at s = Some r \<Longrightarrow> r = [] \<or> is_space (hd r)"
proof -
  assume "url_at s = Some r"
  then obtain lit where "url_match lit s = Some r"
    by (auto simp: url_at_def split: option.splits)
  then obtain ds where "r = dropWhile (\<lambda>c. \<not> is_space c) ds"
    by (auto simp: url_match_def split: if_splits list.splits)
  then show ?thesis using hd_dropWhile [of "\<lambda>c. \<not> is_space c" ds] by auto
qed

lemma word_sub_urls:
  "prefix (takeWhile (\<lambda>c. \<not> is_space c) (sub_urls s)) (takeWhile (\<lambda>c. \<not> is_space c) s)"
proof (induction s rule: sub_urls.induct)
  case 1
  then show ?case by simp
next
  case (2 c cs)
  show ?case
  proof (cases "url_at (c # cs)")
    case None
    then show ?thesis using "2.IH"(1) by simp
  next
    case (Some r)
    have "takeWhile (\<lambda>c. \<not> is_space c) (sub_urls r) = []"
    proof (cases r)
      case Nil
      then show ?thesis by simp
    next
      case (Cons x xs)
      then have "is_space x" using url_rest_space [OF Some] by simp
      then show ?thesis using Cons by (simp add: url_at_space)
    qed
    then show ?thesis using Some by simp
  qed
qed

lemma prefix_word:
  "prefix w xs \<Longrightarrow> list_all (\<lambda>c. \<not> is_space c) w \<Longrightarrow>
     prefix w (takeWhile (\<lambda>c. \<not> is_space c) xs)"
proof (induction w arbitrary: xs)
  case Nil
  then show ?case by simp
next
  case (Cons a w)
  then obtain ys where "xs = a # ys" and "prefix w ys"
    by (cases xs) auto
  then show ?case using Cons by simp
qed

lemma url_match_sub_urls:
  assumes l: "list_all (\<lambda>c. \<not> is_space c) lit" and ne: "lit \<noteq> []"
    and m: "url_match lit (c # sub_urls cs) \<noteq> None"
  shows "url_match lit (c # cs) \<noteq> None"
proof -
  from m obtain d ds where e: "c # sub_urls cs = lit @ d # ds" and d: "\<not> is_space d"
    unfolding url_match_iff by blast
  from ne obtain w where lw: "lit @ [d] = c # w"
    using e by (cases lit) auto
  have "prefix (lit @ [d]) (c # sub_urls cs)"
    unfolding e by (simp add: prefix_def)
  then have pw: "prefix w (sub_urls cs)" unfolding lw by simp
  have "list_all (\<lambda>c. \<not> is_space c) (lit @ [d])" using l d by simp
  then have aw: "list_all (\<lambda>c. \<not> is_space c) w" unfolding lw by simp
  have "prefix w (takeWhile (\<lambda>c. \<not> is_space c) (sub_urls cs))"
    using pw aw by (rule prefix_word)
  then have "prefix w (takeWhile (\<lambda>c. \<not> is_space c) cs)"
    using word_sub_urls [of cs] by (rule prefix_order.trans)
  then have "prefix w cs"
    using takeWhile_is_prefix [of "\<lambda>c. \<not> is_space c" cs] by (rule prefix_order.trans)
  then have "prefix (lit @ [d]) (c # cs)" unfolding lw by simp
  then obtain zs where "c # cs = lit @ d # zs" by (auto simp: prefix_def)
  then show ?thesis unfolding url_match_iff using d by blast
qed

lemma url_at_sub_urls: "url_at (c # cs) = None \<Longrightarrow> url_at (c # sub_urls cs) = None"
proof (rule ccontr)
  assume n: "url_at (c # cs) = None" and "url_at (c # sub_urls cs) \<noteq> None"
  then consider "url_match (str ''http'') (c # sub_urls cs) \<noteq> None"
    | "url_match (str ''www'') (c # sub_urls cs) \<noteq> None"
    | "url_match (str ''https'') (c # sub_urls cs) \<noteq> None"
    unfolding url_at_iff by blast
  then have "url_at (c # cs) \<noteq> None"
  proof cases
    case 1
    have "url_match (str ''http'') (c # cs) \<noteq> None"
    proof (rule url_match_sub_urls)
      show "list_all (\<lambda>c. \<not> is_space c) (str ''http'')"
        by (simp add: str_simps is_space_def)
      show "str ''http'' \<noteq> []" by (simp add: str_simps)
      show "url_match (str ''http'') (c # sub_urls cs) \<noteq> None" by fact
    qed
    then show ?thesis unfolding url_at_iff by blast
  next
    case 2
    have "url_match (str ''www'') (c # cs) \<noteq> None"
    proof (rule url_match_sub_urls)
      show "list_all (\<lambda>c. \<not> is_space c) (str ''www'')"
        by (simp add: str_simps is_space_def)
      show "str ''www'' \<noteq> []" by (simp add: str_simps)
      show "url_match (str ''www'') (c # sub_urls cs) \<noteq> None" by fact
    qed
    then show ?thesis unfolding url_at_iff by blast
  next
    case 3
    have "url_match (str ''https'') (c # cs) \<noteq> None"
    proof (rule url_match_sub_urls)
      show "list_all (\<lambda>c. \<not> is_space c) (str ''https'')"
        by (simp add: str_simps is_space_def)
      show "str ''https'' \<noteq> []" by (simp add: str_simps)
      show "url_match (str ''https'') (c # sub_urls cs) \<noteq> None" by fact
    qed
    then show ?thesis unfolding url_at_iff by blast
  qed
  then show False using n by simp
qed

lemma no_url_left: "\<not> has_url (sub_urls s)"
proof (induction s rule: sub_urls.induct)
  case 1
  then show ?case by simp
next
  case (2 c cs)
  show ?case
  proof (cases "url_at (c # cs)")
    case None
    then show ?thesis using "2.IH"(1) url_at_sub_urls [OF None] by simp
  next
    case (Some r)
    then show ?thesis using "2.IH"(2) by simp
  qed
qed

lemma no_url_kept: "\<not> has_url s \<Longrightarrow> sub_urls s = s"
  by (induction s) (auto split: if_splits option.splits)

text \<open>
  Claim C2. The transform of the Normalizer is a function of the text, the stopword set and
  the lemmatizer (and of the interpreter's lowercase table), and applies its steps in a
  fixed order: lowercase, strip tag spans, strip URL-shaped substrings, keep only ASCII
  letters and whitespace, split on whitespace, drop stopwords and tokens of length at most
  2, lemmatize, join with single spaces. After the tag step no tag span is left, after the
  URL step no URL-shaped substring is left, and either step leaves a text without such
  spans as it is. On \<open><p>Hello, world! I am running to the store.</p>\<close> with the
  stopwords \<open>am\<close>, \<open>a\<close>, \<open>the\<close> it yields \<open>hello world running store\<close> when the
  lemmatizer changes nothing, and \<open>hello world run store\<close> when the lemmatizer maps
  \<open>running\<close> to \<open>run\<close>. The further examples fix the order of the steps (a capitalised
  URL, a URL inside a tag, a URL broken by punctuation, a newline inside angle brackets,
  a bare \<open>http\<close>), every whitespace code point and the bounds of the letter ranges;
  an empty or non-textual input gives the empty string.
\<close>

theorem preprocess_text_steps:
  "preprocess_text stop_words lemmatize ulower (VStr content) =
     (if content = [] then []
      else join_space (map lemmatize
             (filter (\<lambda>token. token \<notin> stop_words \<and> 2 < length token)
                (py_split (filter (\<lambda>c. is_ascii_letter c \<or> is_space c)
                   (sub_urls (sub_html (lower_str ulower content))))))))
   \<and> \<not> has_tag (sub_html s)
   \<and> (\<not> has_tag s \<longrightarrow> sub_html s = s)
   \<and> \<not> has_url (sub_urls s)
   \<and> (\<not> has_url s \<longrightarrow> sub_urls s = s)
   \<and> preprocess_text {str ''am'', str ''a'', str ''the''} (\<lambda>token. token) ulower
        (VStr (str ''<p>Hello, world! I am running to the store.</p>''))
       = str ''hello world running store''
   \<and> preprocess_text {str ''am'', str ''a'', str ''the''}
        (\<lambda>token. if token = str ''running'' then str ''run'' else token) ulower
        (VStr (str ''<p>Hello, world! I am running to the store.</p>''))
       = str ''hello world run store''
   \<and> preprocess_text {str ''am'', str ''a'', str ''the''} (\<lambda>token. token) ulower
        (VStr (str ''Bad http://x.co stuff!!'')) = str ''bad stuff''
   \<and> preprocess_text {str ''am'', str ''a'', str ''the''} (\<lambda>token. token) ulower
        (VStr (str ''Test <b>HTML</b>'')) = str ''test html''
   \<and> preprocess_text {str ''am'', str ''a'', str ''the''} (\<lambda>token. token) ulower
        (VStr (str ''Visit HTTP://Example.com or www.site.org/page NOW'')) = str ''visit now''
   \<and> preprocess_text {str ''am'', str ''a'', str ''the''} (\<lambda>token. token) ulower
        (VStr (str ''<a href=http://x.co>link</a> text'')) = str ''link text''
   \<and> preprocess_text {str ''am'', str ''a'', str ''the''} (\<lambda>token. token) ulower
        (VStr (str ''ht-tp://x.co word'')) = str ''httpxco word''
   \<and> preprocess_text {str ''am'', str ''a'', str ''the''} (\<lambda>token. token) ulower
        (VStr (str ''one <two'' @ [10] @ str ''> three <b>four</b>''))
       = str ''one two three four''
   \<and> preprocess_text {str ''am'', str ''a'', str ''the''} (\<lambda>token. token) ulower
        (VStr (str ''http www ok'')) = str ''http www''
   \<and> preprocess_text stop_words lemmatize ulower (VStr []) = []
   \<and> preprocess_text stop_words lemmatize ulower VNone = []
   \<and> preprocess_text stop_words lemmatize ulower (VNum x) = []
   \<and> preprocess_text {str ''am'', str ''a'', str ''the''} (\<lambda>token. token)
        (\<lambda>whole i. if whole ! i = 8490 then [107] else [whole ! i])
        (VStr ([8490] @ str ''it'' @ [8195] @ str ''Bag'' @ [12288, 233] @ str ''Tea''))
       = str ''kit bag tea''
   \<and> preprocess_text {} (\<lambda>token. token) (\<lambda>whole i. [whole ! i])
        (VStr (str ''aaa'' @ [9] @ str ''bbb'' @ [10] @ str ''ccc'' @ [11] @ str ''ddd'' @ [12]
           @ str ''eee'' @ [13] @ str ''fff'' @ [28] @ str ''ggg'' @ [29] @ str ''hhh'' @ [30]
           @ str ''iii'' @ [31] @ str ''jjj'' @ [32] @ str ''kkk'' @ [133] @ str ''lll'' @ [160]
           @ str ''mmm'' @ [5760] @ str ''nnn'' @ [8192] @ str ''ooo'' @ [8202] @ str ''ppp''
           @ [8232] @ str ''qqq'' @ [8233] @ str ''rrr'' @ [8239] @ str ''sss'' @ [8287]
           @ str ''ttt'' @ [12288] @ str ''uuu'' @ [8203] @ str ''vvv'' @ [14]
           @ str ''A@Z[a`z{''))
       = str ''aaa bbb ccc ddd eee fff ggg hhh iii jjj kkk lll mmm nnn ooo ppp qqq rrr sss ttt uuuvvvazaz''"
proof (intro conjI)
  show "preprocess_text stop_words lemmatize ulower (VStr content) =
     (if content = [] then []
      else join_space (map lemmatize
             (filter (\<lambda>token. token \<notin> stop_words \<and> 2 < length token)
                (py_split (filter (\<lambda>c. is_ascii_letter c \<or> is_space c)
                   (sub_urls (sub_html (lower_str ulower content))))))))"
    by (simp add: preprocess_text_def)
  show "\<not> has_tag (sub_html s)"
    by (rule no_tag_left)
  show "\<not> has_tag s \<longrightarrow> sub_html s = s"
    by (simp add: no_tag_kept)
  show "\<not> has_url (sub_urls s)"
    by (rule no_url_left)
  show "\<not> has_url s \<longrightarrow> sub_urls s = s"
    by (simp add: no_url_kept)
  show "preprocess_text {str ''am'', str ''a'', str ''the''} (\<lambda>token. token) ulower
        (VStr (str ''<p>Hello, world! I am running to the store.</p>''))
       = str ''hello world running store''"
    by (simp add: eval_text)
  show "preprocess_text {str ''am'', str ''a'', str ''the''}
        (\<lambda>token. if token = str ''running'' then str ''run'' else token) ulower
        (VStr (str ''<p>Hello, world! I am running to the store.</p>''))
       = str ''hello world run store''"
    by (simp add: eval_text)
  show "preprocess_text {str ''am'', str ''a'', str ''the''} (\<lambda>token. token) ulower
        (VStr (str ''Bad http://x.co stuff!!'')) = str ''bad stuff''"
    by (simp add: eval_text)
  show "preprocess_text {str ''am'', str ''a'', str ''the''} (\<lambda>token. token) ulower
        (VStr (str ''Test <b>HTML</b>'')) = str ''test html''"
    by (simp add: eval_text)
  show "preprocess_text {str ''am'', str ''a'', str ''the''} (\<lambda>token. token) ulower
        (VStr (str ''Visit HTTP://Example.com or www.site.org/page NOW'')) = str ''visit now''"
    by (simp add: eval_text)
  show "preprocess_text {str ''am'', str ''a'', str ''the''} (\<lambda>token. token) ulower
        (VStr (str ''<a href=http://x.co>link</a> text'')) = str ''link text''"
    by (simp add: eval_text)
  show "preprocess_text {str ''am'', str ''a'', str ''the''} (\<lambda>token. token) ulower
        (VStr (str ''ht-tp://x.co word'')) = str ''httpxco word''"
    by (simp add: eval_text)
  show "preprocess_text {str ''am'', str ''a'', str ''the''} (\<lambda>token. token) ulower
        (VStr (str ''one <two'' @ [10] @ str ''> three <b>four</b>''))
       = str ''one two three four''"
    by (simp add: eval_text)
  show "preprocess_text {str ''am'', str ''a'', str ''the''} (\<lambda>token. token) ulower
        (VStr (str ''http www ok'')) = str ''http www''"
    by (simp add: eval_text)
  show "preprocess_text stop_words lemmatize ulower (VStr []) = []"
    by (simp add: preprocess_text_def)
  show "preprocess_text stop_words lemmatize ulower VNone = []"
    by (simp add: preprocess_text_def)
  show "preprocess_text stop_words lemmatize ulower (VNum x) = []"
    by (simp add: preprocess_text_def)
  show "preprocess_text {str ''am'', str ''a'', str ''the''} (\<lambda>token. token)
        (\<lambda>whole i. if whole ! i = 8490 then [107] else [whole ! i])
        (VStr ([8490] @ str ''it'' @ [8195] @ str ''Bag'' @ [12288, 233] @ str ''Tea''))
       = str ''kit bag tea''"
    by (simp add: eval_text)
  show "preprocess_text {} (\<lambda>token. token) (\<lambda>whole i. [whole ! i])
        (VStr (str ''aaa'' @ [9] @ str ''bbb'' @ [10] @ str ''ccc'' @ [11] @ str ''ddd'' @ [12]
           @ str ''eee'' @ [13] @ str ''fff'' @ [28] @ str ''ggg'' @ [29] @ str ''hhh'' @ [30]
           @ str ''iii'' @ [31] @ str ''jjj'' @ [32] @ str ''kkk'' @ [133] @ str ''lll'' @ [160]
           @ str ''mmm'' @ [5760] @ str ''nnn'' @ [8192] @ str ''ooo'' @ [8202] @ str ''ppp''
           @ [8232] @ str ''qqq'' @ [8233] @ str ''rrr'' @ [8239] @ str ''sss'' @ [8287]
           @ str ''ttt'' @ [12288] @ str ''uuu'' @ [8203] @ str ''vvv'' @ [14]
           @ str ''A@Z[a`z{''))
       = str ''aaa bbb ccc ddd eee fff ggg hhh iii jjj kkk lll mmm nnn ooo ppp qqq rrr sss ttt uuuvvvazaz''"
    by (simp add: eval_text)
qed

theorem preprocess_text_steps_witness:
  "\<not> has_tag (str ''plain text'') \<and> sub_html (str ''plain text'') = str ''plain text''
   \<and> \<not> has_url (str ''plain text'') \<and> sub_urls (str ''plain text'') = str ''plain text''
   \<and> \<not> has_url (sub_urls (str ''see http://x.co now''))
   \<and> \<not> has_tag (sub_html (str ''a <b>bold</b> word''))"
  using preprocess_text_steps [where s = "str ''plain text''"]
    preprocess_text_steps [where s = "str ''see http://x.co now''"]
    preprocess_text_steps [where s = "str ''a <b>bold</b> word''"]
  by (simp add: str_simps url_at_def url_match_def is_space_def del: str_eq_iff)

section \<open>Properties of the Enricher's two analyses\<close>

text \<open>
  Claim C3. Whenever \<open>analyze_sentiment\<close> returns, its label is \<open>positive\<close> exactly when
  the polarity is above 0.1, \<open>negative\<close> exactly when it is below -0.1, and \<open>neutral\<close>
  exactly in between, both bounds included; it returns the polarity of the sentiment model
  whenever the model returns one; and for empty content it returns polarity 0 and
  \<open>neutral\<close>.
\<close>

theorem analyze_sentiment_thresholds:
  "(analyze_sentiment textblob content language = Inr r \<longrightarrow>
      (sentiment r = ''positive'' \<longleftrightarrow> polarity r > 0.1)
    \<and> (sentiment r = ''negative'' \<longleftrightarrow> polarity r < - 0.1)
    \<and> (sentiment r = ''neutral'' \<longleftrightarrow> - 0.1 \<le> polarity r \<and> polarity r \<le> 0.1))
   \<and> (s \<noteq> [] \<longrightarrow> textblob s = Inr p \<longrightarrow>
        (\<exists>r'. analyze_sentiment textblob (VStr s) language = Inr r' \<and> polarity r' = p))
   \<and> analyze_sentiment textblob (VStr []) language = Inr \<lparr>polarity = 0, sentiment = ''neutral''\<rparr>"
  by (cases content) (auto split: sum.splits if_splits)

text \<open>The boundary cases: 0.1 and -0.1 are neutral, 0.1000001 is positive.\<close>

theorem analyze_sentiment_thresholds_witness:
  "analyze_sentiment (\<lambda>s. Inr 0.1) (VStr (str ''fine'')) ''en''
     = Inr \<lparr>polarity = 0.1, sentiment = ''neutral''\<rparr>
   \<and> analyze_sentiment (\<lambda>s. Inr (- 0.1)) (VStr (str ''fine'')) ''en''
     = Inr \<lparr>polarity = - 0.1, sentiment = ''neutral''\<rparr>
   \<and> analyze_sentiment (\<lambda>s. Inr 0.1000001) (VStr (str ''fine'')) ''en''
     = Inr \<lparr>polarity = 0.1000001, sentiment = ''positive''\<rparr>
   \<and> (\<exists>r'. analyze_sentiment (\<lambda>s. Inr 0.1000001) (VStr (str ''fine'')) ''en'' = Inr r'
          \<and> polarity r' = 0.1000001 \<and> sentiment r' = ''positive'')"
  using analyze_sentiment_thresholds [where textblob = "\<lambda>s. Inr 0.1000001"
      and content = "VStr (str ''fine'')" and language = "''en''"
      and r = "\<lparr>polarity = 0.1000001, sentiment = ''positive''\<rparr>"
      and s = "str ''fine''" and p = "0.1000001"]
  by simp

text \<open>
  Claim C4. \<open>detect_language\<close> answers \<open>unknown\<close> without calling the detector when the
  content is empty or shorter than 3 characters; otherwise it calls the detector once, on
  the first 1000 characters at most, answers \<open>unknown\<close> when the detector raises its
  detection failure, and the detected language when the detector returns one.
\<close>

theorem detect_language_fallback:
  "(length content < 3 \<longrightarrow> detect_language detect (VStr content) = (Inr ''unknown'', []))
   \<and> (3 \<le> length content \<longrightarrow>
        snd (detect_language detect (VStr content)) = [take 1000 content]
        \<and> length (take 1000 content) \<le> 1000)
   \<and> (3 \<le> length content \<longrightarrow> detect (take 1000 content) = Inl LangDetectException \<longrightarrow>
        fst (detect_language detect (VStr content)) = Inr ''unknown'')
   \<and> (3 \<le> length content \<longrightarrow> detect (take 1000 content) = Inr lang \<longrightarrow>
        fst (detect_language detect (VStr content)) = Inr lang)"
  by (auto split: sum.splits error.splits)

theorem detect_language_fallback_witness:
  "detect_language (\<lambda>s. Inr ''en'') (VStr (str ''Hi'')) = (Inr ''unknown'', [])
   \<and> detect_language (\<lambda>s. Inl LangDetectException) (VStr (replicate 1500 55))
       = (Inr ''unknown'', [replicate 1000 55])
   \<and> detect_language (\<lambda>s. Inr ''fr'') (VStr (str ''Bonjour'')) = (Inr ''fr'', [str ''Bonjour''])"
proof (intro conjI)
  show "detect_language (\<lambda>s. Inr ''en'') (VStr (str ''Hi'')) = (Inr ''unknown'', [])"
    using detect_language_fallback [where content = "str ''Hi''" and detect = "\<lambda>s. Inr ''en''"]
    by simp
  show "detect_language (\<lambda>s. Inl LangDetectException) (VStr (replicate 1500 55))
       = (Inr ''unknown'', [replicate 1000 55])"
    using detect_language_fallback [where content = "replicate 1500 55"
        and detect = "\<lambda>s. Inl LangDetectException"]
    by (simp add: prod_eq_iff)
  show "detect_language (\<lambda>s. Inr ''fr'') (VStr (str ''Bonjour'')) = (Inr ''fr'', [str ''Bonjour''])"
    using detect_language_fallback [where content = "str ''Bonjour''"
        and detect = "\<lambda>s. Inr ''fr''" and lang = "''fr''"]
    by (simp add: prod_eq_iff)
qed

text \<open>
  Claim C9. \<open>analyze_sentiment\<close> does not depend on its language argument: on the same
  text, any two languages give the same polarity and the same label (or the same error).
\<close>

theorem analyze_sentiment_ignores_language:
  "analyze_sentiment textblob content l1 = analyze_sentiment textblob content l2"
  by simp

section \<open>Properties of the Publisher's projection\<close>

text \<open>
  Claim C10. \<open>transform_document\<close> never fails and always produces the nine fields of the
  destination schema. A missing \<open>title\<close>, \<open>content\<close> or \<open>url\<close> becomes the empty string,
  a missing \<open>author\<close> or \<open>language\<close> becomes \<open>unknown\<close>, a missing \<open>sentiment\<close> becomes
  \<open>neutral\<close>, a missing \<open>polarity\<close> gives the score 0, a missing \<open>date\<close> is replaced by the
  current time, and a \<open>polarity\<close> that is present is the score.
\<close>

theorem transform_document_defaults:
  "dom (transform_document now1 now2 doc) =
     {''titre'', ''contenu'', ''auteur'', ''date'', ''url'', ''langue'', ''sentiment'',
      ''score'', ''indexed_at''}
   \<and> (doc ''title'' = None \<longrightarrow> transform_document now1 now2 doc ''titre'' = Some (VStr []))
   \<and> (doc ''content'' = None \<longrightarrow> transform_document now1 now2 doc ''contenu'' = Some (VStr []))
   \<and> (doc ''author'' = None \<longrightarrow>
        transform_document now1 now2 doc ''auteur'' = Some (VStr (str ''unknown'')))
   \<and> (doc ''language'' = None \<longrightarrow>
        transform_document now1 now2 doc ''langue'' = Some (VStr (str ''unknown'')))
   \<and> (doc ''sentiment'' = None \<longrightarrow>
        transform_document now1 now2 doc ''sentiment'' = Some (VStr (str ''neutral'')))
   \<and> (doc ''url'' = None \<longrightarrow> transform_document now1 now2 doc ''url'' = Some (VStr []))
   \<and> (doc ''polarity'' = None \<longrightarrow> transform_document now1 now2 doc ''score'' = Some (VNum 0))
   \<and> (doc ''date'' = None \<longrightarrow> transform_document now1 now2 doc ''date'' = Some (VTime now1))
   \<and> (doc ''polarity'' = Some p \<longrightarrow> transform_document now1 now2 doc ''score'' = Some p)"
  by (auto simp: transform_document_def get_def split: if_splits)

theorem transform_document_defaults_witness:
  "transform_document 7 8 Map.empty ''titre'' = Some (VStr [])
   \<and> transform_document 7 8 Map.empty ''contenu'' = Some (VStr [])
   \<and> transform_document 7 8 Map.empty ''auteur'' = Some (VStr (str ''unknown''))
   \<and> transform_document 7 8 Map.empty ''langue'' = Some (VStr (str ''unknown''))
   \<and> transform_document 7 8 Map.empty ''sentiment'' = Some (VStr (str ''neutral''))
   \<and> transform_document 7 8 Map.empty ''url'' = Some (VStr [])
   \<and> transform_document 7 8 Map.empty ''score'' = Some (VNum 0)
   \<and> transform_document 7 8 Map.empty ''date'' = Some (VTime 7)
   \<and> transform_document 7 8 [''polarity'' \<mapsto> VNum 0.75] ''score'' = Some (VNum 0.75)"
  using transform_document_defaults [where doc = Map.empty and ?now1.0 = 7 and ?now2.0 = 8]
    transform_document_defaults [where doc = "[''polarity'' \<mapsto> VNum 0.75]"
        and p = "VNum 0.75" and ?now1.0 = 7 and ?now2.0 = 8]
  by simp

section \<open>Properties of the store writes\<close>

lemma key_of_merge: "d ''url'' = Some u \<Longrightarrow> key_of (x ++ d) = u"
  by (simp add: key_of_def get_def)

lemma key_of_self: "d ''url'' = Some u \<Longrightarrow> key_of d = u"
  by (simp add: key_of_def get_def)



lemma keys_set_first:
  "d ''url'' = Some u \<Longrightarrow> map key_of (set_first u d c) = map key_of c"
  by (induction c) (auto simp: key_of_merge)






lemma count_Suc:
  "length (filter P [0..<Suc n]) = (if P 0 then 1 else 0) + length (filter (\<lambda>i. P (Suc i)) [0..<n])"
proof -
  have "[0..<Suc n] = 0 # map Suc [0..<n]"
    by (simp add: upt_conv_Cons map_Suc_upt del: upt_Suc)
  then show ?thesis by (simp add: filter_map comp_def del: upt_Suc)
qed

lemma update_one_fail:
  "fails (attempts s) \<Longrightarrow>
     update_one fails u d s = (Inl StoreFault, s\<lparr>attempts := attempts s + 1\<rparr>)"
  by (simp add: update_one_def)

lemma update_one_ok:
  "\<not> fails (attempts s) \<Longrightarrow>
     update_one fails u d s =
       (Inr (fst (upsert u d (docs s))),
        s\<lparr>attempts := attempts s + 1, docs := snd (upsert u d (docs s))\<rparr>)"
  by (simp add: update_one_def split: prod.splits)

lemma save_one_attempt:
  "doc ''url'' = Some u \<Longrightarrow>
     attempts (saved (save_one fails doc st)) = Suc (attempts (saved st))
   \<and> inserted_count (save_one fails doc st) + skipped_count (save_one fails doc st)
        = inserted_count st + skipped_count st + (if fails (attempts (saved st)) then 0 else 1)
   \<and> length (logged (save_one fails doc st))
        = length (logged st) + (if fails (attempts (saved st)) then 1 else 0)"
  by (cases "fails (attempts (saved st))")
     (simp_all add: save_one_def update_one_fail update_one_ok)

lemma save_loop_counts:
  "list_all (\<lambda>d. d ''url'' \<noteq> None) ds \<Longrightarrow>
     attempts (saved (save_loop fails ds st)) = attempts (saved st) + length ds
   \<and> inserted_count (save_loop fails ds st) + skipped_count (save_loop fails ds st)
       = inserted_count st + skipped_count st
         + length (filter (\<lambda>i. \<not> fails (attempts (saved st) + i)) [0..<length ds])
   \<and> length (logged (save_loop fails ds st))
       = length (logged st)
         + length (filter (\<lambda>i. fails (attempts (saved st) + i)) [0..<length ds])"
proof (induction ds arbitrary: st)
  case Nil
  then show ?case by simp
next
  case (Cons d ds)
  obtain u where u: "d ''url'' = Some u" and r: "list_all (\<lambda>d. d ''url'' \<noteq> None) ds"
    using Cons.prems by auto
  note ih = Cons.IH [OF r, of "save_one fails d st"]
  note so = save_one_attempt [where doc = d and fails = fails and st = st, OF u]
  show ?case
    using ih so by (simp add: count_Suc del: upt_Suc)
qed

lemma save_enriched_attempt:
  "doc ''url'' = Some u \<Longrightarrow>
     attempts (enriched (save_enriched fails doc edoc st)) = Suc (attempts (enriched st))
   \<and> processed_count (save_enriched fails doc edoc st)
        = processed_count st + (if fails (attempts (enriched st)) then 0 else 1)
   \<and> length (nlp_logged (save_enriched fails doc edoc st))
        = length (nlp_logged st) + (if fails (attempts (enriched st)) then 1 else 0)
   \<and> raised (save_enriched fails doc edoc st) = raised st"
  by (cases "fails (attempts (enriched st))")
     (simp_all add: save_enriched_def update_one_fail update_one_ok)

lemma enrich_loop_counts:
  "list_all (\<lambda>d. d ''url'' \<noteq> None) ds \<Longrightarrow>
   raised (enrich_loop detect textblob now fails i ds st) = None \<Longrightarrow>
     attempts (enriched (enrich_loop detect textblob now fails i ds st))
       = attempts (enriched st) + length ds
   \<and> processed_count (enrich_loop detect textblob now fails i ds st)
       = processed_count st
         + length (filter (\<lambda>i. \<not> fails (attempts (enriched st) + i)) [0..<length ds])
   \<and> length (nlp_logged (enrich_loop detect textblob now fails i ds st))
       = length (nlp_logged st)
         + length (filter (\<lambda>i. fails (attempts (enriched st) + i)) [0..<length ds])"
proof (induction ds arbitrary: st i)
  case Nil
  then show ?case by simp
next
  case (Cons d ds)
  obtain u where u: "d ''url'' = Some u" and r: "list_all (\<lambda>d. d ''url'' \<noteq> None) ds"
    using Cons.prems(1) by auto
  obtain edoc where e: "enriched_doc (detect i) textblob (now i) d = Inr edoc"
    using Cons.prems(2) by (cases "enriched_doc (detect i) textblob (now i) d") auto
  have nr: "raised (enrich_loop detect textblob now fails (Suc i) ds
               (save_enriched fails d edoc st)) = None"
    using Cons.prems(2) e by simp
  note ih = Cons.IH [OF r nr]
  note so = save_enriched_attempt [where doc = d and fails = fails and st = st
      and edoc = edoc, OF u]
  show ?case
    using ih so e by (simp add: count_Suc del: upt_Suc)
qed


lemma save_to_mongodb_loop:
  "save_to_mongodb fails ds s =
     save_loop fails ds \<lparr>saved = s, inserted_count = 0, skipped_count = 0, logged = []\<rparr>"
  by (cases ds) (simp_all add: save_to_mongodb_def Let_def)

lemma process_documents_urls:
  "list_all (\<lambda>d. d ''url'' \<noteq> None) (process_documents stop_words lemmatize ulower raw)"
  by (induction raw) (simp_all add: processed_doc_def Let_def)

lemma process_documents_length:
  "length (process_documents stop_words lemmatize ulower raw) = length raw"
  by (induction raw) simp_all

text \<open>
  Claim C6. A failing store write is caught and logged, the loop attempts the write of
  every remaining document, and the failing document increments no success counter: when
  every document carries a \<open>url\<close>, \<open>save_to_mongodb\<close> attempts one write per document,
  the sum of its inserted and updated counters is the number of writes that did not fail,
  and one error is logged per failed write; the same holds for a whole run of the
  Normalizer, and for the Enricher's \<open>process_documents\<close> and its processed counter
  whenever no exception leaves its loop. With 3 documents and a failure on the second
  write only, 3 writes are attempted and 2 successes are counted.
\<close>

theorem partial_failure_continuation:
  "(list_all (\<lambda>d. d ''url'' \<noteq> None) processed_docs \<longrightarrow>
      attempts (saved (save_to_mongodb fails processed_docs s))
        = attempts s + length processed_docs
    \<and> inserted_count (save_to_mongodb fails processed_docs s)
        + skipped_count (save_to_mongodb fails processed_docs s)
        = length (filter (\<lambda>i. \<not> fails (attempts s + i)) [0..<length processed_docs])
    \<and> length (logged (save_to_mongodb fails processed_docs s))
        = length (filter (\<lambda>i. fails (attempts s + i)) [0..<length processed_docs]))
   \<and> attempts (saved (normalizer_run stop_words lemmatize ulower fails raw s))
        = attempts s + length raw
   \<and> inserted_count (normalizer_run stop_words lemmatize ulower fails raw s)
        + skipped_count (normalizer_run stop_words lemmatize ulower fails raw s)
        = length (filter (\<lambda>i. \<not> fails (attempts s + i)) [0..<length raw])
   \<and> (list_all (\<lambda>d. d ''url'' \<noteq> None) preprocessed
        \<and> raised (nlp_process_documents detect textblob now fails preprocessed s) = None \<longrightarrow>
      attempts (enriched (nlp_process_documents detect textblob now fails preprocessed s))
        = attempts s + length preprocessed
    \<and> processed_count (nlp_process_documents detect textblob now fails preprocessed s)
        = length (filter (\<lambda>i. \<not> fails (attempts s + i)) [0..<length preprocessed])
    \<and> length (nlp_logged (nlp_process_documents detect textblob now fails preprocessed s))
        = length (filter (\<lambda>i. fails (attempts s + i)) [0..<length preprocessed]))"
proof -
  have save: "attempts (saved (save_to_mongodb fails ds s)) = attempts s + length ds
    \<and> inserted_count (save_to_mongodb fails ds s) + skipped_count (save_to_mongodb fails ds s)
        = length (filter (\<lambda>i. \<not> fails (attempts s + i)) [0..<length ds])
    \<and> length (logged (save_to_mongodb fails ds s))
        = length (filter (\<lambda>i. fails (attempts s + i)) [0..<length ds])"
    if "list_all (\<lambda>d. d ''url'' \<noteq> None) ds" for ds
    using save_loop_counts [OF that,
        of fails "\<lparr>saved = s, inserted_count = 0, skipped_count = 0, logged = []\<rparr>"]
    by (simp add: save_to_mongodb_loop)
  have norm: "attempts (saved (normalizer_run stop_words lemmatize ulower fails raw s))
        = attempts s + length raw
   \<and> inserted_count (normalizer_run stop_words lemmatize ulower fails raw s)
        + skipped_count (normalizer_run stop_words lemmatize ulower fails raw s)
        = length (filter (\<lambda>i. \<not> fails (attempts s + i)) [0..<length raw])"
    using save [OF process_documents_urls, of stop_words lemmatize ulower raw]
    by (simp add: normalizer_run_def process_documents_length)
  have nlp: "attempts (enriched (nlp_process_documents detect textblob now fails preprocessed s))
        = attempts s + length preprocessed
    \<and> processed_count (nlp_process_documents detect textblob now fails preprocessed s)
        = length (filter (\<lambda>i. \<not> fails (attempts s + i)) [0..<length preprocessed])
    \<and> length (nlp_logged (nlp_process_documents detect textblob now fails preprocessed s))
        = length (filter (\<lambda>i. fails (attempts s + i)) [0..<length preprocessed])"
    if "list_all (\<lambda>d. d ''url'' \<noteq> None) preprocessed"
      and "raised (nlp_process_documents detect textblob now fails preprocessed s) = None"
    using enrich_loop_counts [OF that(1), of detect textblob now fails 0
        "\<lparr>enriched = s, processed_count = 0, nlp_logged = [], raised = None\<rparr>"] that(2)
    by (simp add: nlp_process_documents_def)
  show ?thesis
    using save [of processed_docs] norm nlp by blast
qed

lemma save_enriched_raised: "raised (save_enriched fails doc edoc st) = raised st"
  by (cases "fails (attempts (enriched st))")
     (simp_all add: save_enriched_def update_one_fail update_one_ok split: option.splits)

lemma enriched_doc_returns:
  "get doc ''content'' (VStr []) = VStr c \<Longrightarrow>
     \<exists>edoc. enriched_doc (\<lambda>t. Inr l) (\<lambda>t. Inr p) t0 doc = Inr edoc"
  by (cases "length c < 3") (simp_all add: enriched_doc_def Let_def)

lemma enrich_loop_returns:
  "list_all (\<lambda>d. \<exists>c. get d ''content'' (VStr []) = VStr c) ds \<Longrightarrow>
     raised (enrich_loop (\<lambda>i t. Inr l) (\<lambda>t. Inr p) now fails i ds st) = raised st"
proof (induction ds arbitrary: i st)
  case Nil
  then show ?case by simp
next
  case (Cons d ds)
  then obtain c where c: "get d ''content'' (VStr []) = VStr c"
    and r: "list_all (\<lambda>d. \<exists>c. get d ''content'' (VStr []) = VStr c) ds"
    by auto
  obtain edoc where e: "enriched_doc (\<lambda>t. Inr l) (\<lambda>t. Inr p) (now i) d = Inr edoc"
    using enriched_doc_returns [OF c] by blast
  show ?case
    using Cons.IH [OF r] e by (simp add: save_enriched_raised)
qed

lemma three_docs_no_exception:
  "raised (nlp_process_documents (\<lambda>i t. Inr ''en'') (\<lambda>t. Inr 0) (\<lambda>i. i) (\<lambda>n. n = 1)
      [[''url'' \<mapsto> VStr (str ''u1''), ''content'' \<mapsto> VStr (str ''first post'')],
       [''url'' \<mapsto> VStr (str ''u2''), ''content'' \<mapsto> VStr (str ''second post'')],
       [''url'' \<mapsto> VStr (str ''u3''), ''content'' \<mapsto> VStr (str ''third post'')]]
      \<lparr>docs = [], attempts = 0\<rparr>) = None"
  unfolding nlp_process_documents_def
  by (subst enrich_loop_returns) (simp_all add: get_def)

theorem partial_failure_continuation_witness:
  "attempts (saved (save_to_mongodb (\<lambda>n. n = 1)
      [[''url'' \<mapsto> VStr (str ''u1''), ''content'' \<mapsto> VStr (str ''first post'')],
       [''url'' \<mapsto> VStr (str ''u2''), ''content'' \<mapsto> VStr (str ''second post'')],
       [''url'' \<mapsto> VStr (str ''u3''), ''content'' \<mapsto> VStr (str ''third post'')]]
      \<lparr>docs = [], attempts = 0\<rparr>)) = 3
   \<and> inserted_count (save_to_mongodb (\<lambda>n. n = 1)
      [[''url'' \<mapsto> VStr (str ''u1''), ''content'' \<mapsto> VStr (str ''first post'')],
       [''url'' \<mapsto> VStr (str ''u2''), ''content'' \<mapsto> VStr (str ''second post'')],
       [''url'' \<mapsto> VStr (str ''u3''), ''content'' \<mapsto> VStr (str ''third post'')]]
      \<lparr>docs = [], attempts = 0\<rparr>)
     + skipped_count (save_to_mongodb (\<lambda>n. n = 1)
      [[''url'' \<mapsto> VStr (str ''u1''), ''content'' \<mapsto> VStr (str ''first post'')],
       [''url'' \<mapsto> VStr (str ''u2''), ''content'' \<mapsto> VStr (str ''second post'')],
       [''url'' \<mapsto> VStr (str ''u3''), ''content'' \<mapsto> VStr (str ''third post'')]]
      \<lparr>docs = [], attempts = 0\<rparr>) = 2
   \<and> attempts (enriched (nlp_process_documents (\<lambda>i t. Inr ''en'') (\<lambda>t. Inr 0) (\<lambda>i. i) (\<lambda>n. n = 1)
      [[''url'' \<mapsto> VStr (str ''u1''), ''content'' \<mapsto> VStr (str ''first post'')],
       [''url'' \<mapsto> VStr (str ''u2''), ''content'' \<mapsto> VStr (str ''second post'')],
       [''url'' \<mapsto> VStr (str ''u3''), ''content'' \<mapsto> VStr (str ''third post'')]]
      \<lparr>docs = [], attempts = 0\<rparr>)) = 3
   \<and> processed_count (nlp_process_documents (\<lambda>i t. Inr ''en'') (\<lambda>t. Inr 0) (\<lambda>i. i) (\<lambda>n. n = 1)
      [[''url'' \<mapsto> VStr (str ''u1''), ''content'' \<mapsto> VStr (str ''first post'')],
       [''url'' \<mapsto> VStr (str ''u2''), ''content'' \<mapsto> VStr (str ''second post'')],
       [''url'' \<mapsto> VStr (str ''u3''), ''content'' \<mapsto> VStr (str ''third post'')]]
      \<lparr>docs = [], attempts = 0\<rparr>) = 2"
proof -
  let ?ds = "[[''url'' \<mapsto> VStr (str ''u1''), ''content'' \<mapsto> VStr (str ''first post'')],
       [''url'' \<mapsto> VStr (str ''u2''), ''content'' \<mapsto> VStr (str ''second post'')],
       [''url'' \<mapsto> VStr (str ''u3''), ''content'' \<mapsto> VStr (str ''third post'')]]"
  let ?s0 = "\<lparr>docs = [], attempts = 0\<rparr>"
  have h1: "list_all (\<lambda>d. d ''url'' \<noteq> None) ?ds"
    by simp
  have h2: "raised (nlp_process_documents (\<lambda>i t. Inr ''en'') (\<lambda>t. Inr 0) (\<lambda>i. i) (\<lambda>n. n = 1)
      ?ds ?s0) = None"
    by (rule three_docs_no_exception)
  note t = partial_failure_continuation [where fails = "\<lambda>n. n = 1" and s = ?s0
      and processed_docs = ?ds and preprocessed = ?ds and raw = "[]"
      and detect = "\<lambda>i t. Inr ''en''" and textblob = "\<lambda>t. Inr 0" and now = "\<lambda>i. i"]
  have t1: "attempts (saved (save_to_mongodb (\<lambda>n. n = 1) ?ds ?s0)) = attempts ?s0 + length ?ds
    \<and> inserted_count (save_to_mongodb (\<lambda>n. n = 1) ?ds ?s0)
        + skipped_count (save_to_mongodb (\<lambda>n. n = 1) ?ds ?s0)
        = length (filter (\<lambda>i. \<not> (attempts ?s0 + i = 1)) [0..<length ?ds])"
    using t h1 by blast
  have t2: "attempts (enriched (nlp_process_documents (\<lambda>i t. Inr ''en'') (\<lambda>t. Inr 0) (\<lambda>i. i)
        (\<lambda>n. n = 1) ?ds ?s0)) = attempts ?s0 + length ?ds
    \<and> processed_count (nlp_process_documents (\<lambda>i t. Inr ''en'') (\<lambda>t. Inr 0) (\<lambda>i. i)
        (\<lambda>n. n = 1) ?ds ?s0)
        = length (filter (\<lambda>i. \<not> (attempts ?s0 + i = 1)) [0..<length ?ds])"
    using t h1 h2 by blast
  show ?thesis
    using t1 t2 by (simp add: upt_rec)
qed

section \<open>Properties of the bulk load\<close>

lemma batches_of_Nil: "batches_of n [] = []"
  by (simp add: batches_of.simps)

lemma batches_of_step:
  "0 < n \<Longrightarrow> xs \<noteq> [] \<Longrightarrow> batches_of n xs = take n xs # batches_of n (drop n xs)"
  by (subst batches_of.simps) simp

lemma batches_of_short:
  "0 < n \<Longrightarrow> length xs \<le> n \<Longrightarrow> batches_of n xs = (if xs = [] then [] else [xs])"
  by (simp add: batches_of_step batches_of_Nil)

lemma batches_of_full:
  "0 < n \<Longrightarrow> length xs = n \<Longrightarrow> batches_of n (xs @ ys) = xs # batches_of n ys"
  by (subst batches_of_step) auto

lemma concat_batches_of: "0 < n \<Longrightarrow> concat (batches_of n xs) = xs"
proof (induction n xs rule: batches_of.induct)
  case (1 n xs)
  show ?case
  proof (cases "xs = []")
    case True
    then show ?thesis by (simp add: batches_of_Nil)
  next
    case False
    then show ?thesis
      using 1 by (simp add: batches_of_step)
  qed
qed

lemma lengths_batches_of:
  "0 < n \<Longrightarrow> map length (batches_of n xs) =
     replicate (length xs div n) n @ (if length xs mod n = 0 then [] else [length xs mod n])"
proof (induction n xs rule: batches_of.induct)
  case (1 n xs)
  show ?case
  proof (cases "xs = []")
    case True
    then show ?thesis by (simp add: batches_of_Nil)
  next
    case False
    note ne = this
    show ?thesis
    proof (cases "length xs < n")
      case True
      then show ?thesis
        using ne "1.prems" by (simp add: batches_of_short)
    next
      case False
      then have ge: "n \<le> length xs" by simp
      have d: "length xs div n = Suc ((length xs - n) div n)"
        using ge "1.prems" by (simp add: le_div_geq)
      have m: "length xs mod n = (length xs - n) mod n"
        using ge by (simp add: le_mod_geq)
      have ih: "map length (batches_of n (drop n xs)) =
          replicate ((length xs - n) div n) n
          @ (if (length xs - n) mod n = 0 then [] else [(length xs - n) mod n])"
        using "1.IH" ne "1.prems" by simp
      show ?thesis
        using ne "1.prems" ge by (simp add: batches_of_step ih d m)
    qed
  qed
qed

lemma reports_append:
  "reports bulk k (bs @ cs) = reports bulk k bs @ reports bulk (k + length bs) cs"
  by (induction bs arbitrary: k) simp_all

lemma bulk_index_eq:
  "bulk_index bulk actions st =
     \<lparr>submitted = submitted st @ [actions],
      es_logged = es_logged st @ bulk_report (bulk (length (submitted st)) actions)\<rparr>"
  by (cases "bulk (length (submitted st)) actions")
     (simp_all add: bulk_index_def bulk_report_def Let_def)

lemma index_loop_batches:
  "length actions < 500 \<Longrightarrow>
     index_loop bulk now index_name i coll actions st =
       \<lparr>submitted = submitted st
          @ batches_of 500 (actions @ projected now index_name i coll),
        es_logged = es_logged st
          @ reports bulk (length (submitted st))
              (batches_of 500 (actions @ projected now index_name i coll))\<rparr>"
proof (induction coll arbitrary: i actions st)
  case Nil
  then show ?case
    by (simp add: batches_of_short bulk_index_eq)
next
  case (Cons doc rest)
  let ?a = "\<lparr>a_index = index_name,
      a_source = transform_document (now (2 * i)) (now (2 * i + 1)) doc\<rparr>"
  show ?case
  proof (cases "500 \<le> length (actions @ [?a])")
    case True
    then have len: "length (actions @ [?a]) = 500"
      using Cons.prems by simp
    have b: "batches_of 500 ((actions @ [?a]) @ projected now index_name (Suc i) rest)
        = (actions @ [?a]) # batches_of 500 (projected now index_name (Suc i) rest)"
      using len by (intro batches_of_full) simp_all
    have ih: "index_loop bulk now index_name (Suc i) rest [] (bulk_index bulk (actions @ [?a]) st)
       = \<lparr>submitted = submitted (bulk_index bulk (actions @ [?a]) st)
            @ batches_of 500 ([] @ projected now index_name (Suc i) rest),
          es_logged = es_logged (bulk_index bulk (actions @ [?a]) st)
            @ reports bulk (length (submitted (bulk_index bulk (actions @ [?a]) st)))
                (batches_of 500 ([] @ projected now index_name (Suc i) rest))\<rparr>"
      by (rule Cons.IH) simp
    show ?thesis
      using True b ih by (simp add: Let_def bulk_index_eq)
  next
    case False
    then have lt: "length (actions @ [?a]) < 500" by simp
    show ?thesis
      using False Cons.IH [OF lt, of "Suc i" st] by (simp add: Let_def)
  qed
qed

lemma length_projected: "length (projected now index_name i coll) = length coll"
  by (induction coll arbitrary: i) simp_all

text \<open>
  Claim C8 (as amended). The Publisher submits the projected documents in batches of 500,
  the last batch holding the remainder, each document exactly once and in order, whatever
  the bulk calls answer: an exception of a bulk call is caught and logged with its
  message, a call that returns logs its success count, and its error count when that is
  not zero; no batch is submitted again and every later batch is still submitted.
\<close>

theorem index_documents_batches:
  "submitted (index_documents bulk now index_name coll)
     = batches_of 500 (projected now index_name 0 coll)
   \<and> concat (submitted (index_documents bulk now index_name coll))
     = projected now index_name 0 coll
   \<and> map length (submitted (index_documents bulk now index_name coll))
     = replicate (length coll div 500) 500
       @ (if length coll mod 500 = 0 then [] else [length coll mod 500])
   \<and> es_logged (index_documents bulk now index_name coll)
     = reports bulk 0 (submitted (index_documents bulk now index_name coll))"
proof -
  have e: "index_documents bulk now index_name coll =
      \<lparr>submitted = batches_of 500 (projected now index_name 0 coll),
       es_logged = reports bulk 0 (batches_of 500 (projected now index_name 0 coll))\<rparr>"
    unfolding index_documents_def
    by (subst index_loop_batches) simp_all
  show ?thesis
    by (simp add: e concat_batches_of lengths_batches_of length_projected)
qed

text \<open>
  The claim has the caught failure logged with a success/error count: when the bulk call
  raises, the only log line is the one of the exception, and it carries no count.
\<close>

theorem bulk_exception_log_counterexample:
  "es_logged (index_documents (\<lambda>k b. BulkRaised ServiceError) (\<lambda>n. n) ''harcelement_posts''
      [Map.empty]) = [LogBulkException ServiceError]
   \<and> length (submitted (index_documents (\<lambda>k b. BulkRaised ServiceError) (\<lambda>n. n)
      ''harcelement_posts'' [Map.empty])) = 1"
  by (simp add: index_documents_def bulk_index_def Let_def)

section \<open>Model errors in the Enricher\<close>

text \<open>
  Claim C7 (as amended). For a document whose content is a string, a detection failure of
  the language detector is caught: the language of the enriched document is \<open>unknown\<close>
  and the loop goes on with the next document. An error raised by the sentiment model is
  not caught by the Enricher: it leaves \<open>process_documents\<close>, and the remaining
  documents are not processed.
\<close>

theorem enricher_model_errors:
  "(get doc ''content'' (VStr []) = VStr c \<and> 3 \<le> length c
      \<and> detect i (take 1000 c) = Inl LangDetectException \<and> textblob c = Inr p \<longrightarrow>
      (\<exists>edoc. enriched_doc (detect i) textblob (now i) doc = Inr edoc
         \<and> edoc ''language'' = Some (VStr (str ''unknown''))
         \<and> enrich_loop detect textblob now fails i (doc # rest) st
             = enrich_loop detect textblob now fails (Suc i) rest
                 (save_enriched fails doc edoc st)))
   \<and> (get doc ''content'' (VStr []) = VStr c \<and> c \<noteq> []
      \<and> fst (detect_language (detect i) (VStr c)) = Inr lang \<and> textblob c = Inl e \<longrightarrow>
      enriched_doc (detect i) textblob (now i) doc = Inl e
      \<and> enrich_loop detect textblob now fails i (doc # rest) st = st\<lparr>raised := Some e\<rparr>)"
proof (intro conjI impI)
  assume a: "get doc ''content'' (VStr []) = VStr c \<and> 3 \<le> length c
      \<and> detect i (take 1000 c) = Inl LangDetectException \<and> textblob c = Inr p"
  then have ne: "c \<noteq> []" by auto
  have d: "fst (detect_language (detect i) (VStr c)) = Inr ''unknown''"
    using a by simp
  obtain r where r: "analyze_sentiment textblob (VStr c) ''unknown'' = Inr r"
    using a ne by simp
  let ?edoc = "[''title'' \<mapsto> get doc ''title'' (VStr []),
                    ''content'' \<mapsto> VStr c,
                    ''author'' \<mapsto> get doc ''author'' (VStr (str ''unknown'')),
                    ''date'' \<mapsto> get doc ''date'' VNone,
                    ''url'' \<mapsto> get doc ''url'' (VStr []),
                    ''language'' \<mapsto> VStr (str ''unknown''),
                    ''sentiment'' \<mapsto> VStr (str (sentiment r)),
                    ''polarity'' \<mapsto> VNum (polarity r),
                    ''enriched_at'' \<mapsto> VTime (now i)]"
  have e: "enriched_doc (detect i) textblob (now i) doc = Inr ?edoc"
    using a d r by (simp add: enriched_doc_def Let_def del: detect_language.simps analyze_sentiment.simps)
  have l: "?edoc ''language'' = Some (VStr (str ''unknown''))" by simp
  have lp: "enrich_loop detect textblob now fails i (doc # rest) st
             = enrich_loop detect textblob now fails (Suc i) rest
                 (save_enriched fails doc ?edoc st)"
    using e by simp
  show "\<exists>edoc. enriched_doc (detect i) textblob (now i) doc = Inr edoc
         \<and> edoc ''language'' = Some (VStr (str ''unknown''))
         \<and> enrich_loop detect textblob now fails i (doc # rest) st
             = enrich_loop detect textblob now fails (Suc i) rest
                 (save_enriched fails doc edoc st)"
    using e l lp by blast
next
  assume a: "get doc ''content'' (VStr []) = VStr c \<and> c \<noteq> []
      \<and> fst (detect_language (detect i) (VStr c)) = Inr lang \<and> textblob c = Inl e"
  have s: "analyze_sentiment textblob (VStr c) lang = Inl e"
    using a by simp
  show e: "enriched_doc (detect i) textblob (now i) doc = Inl e"
    using a s by (simp add: enriched_doc_def Let_def del: detect_language.simps analyze_sentiment.simps)
  show "enrich_loop detect textblob now fails i (doc # rest) st = st\<lparr>raised := Some e\<rparr>"
    using e by simp
qed

text \<open>
  The claim has every model error caught per document. With a sentiment model that raises,
  the first document ends the loop: nothing is written and the second document is never
  reached.
\<close>

theorem sentiment_error_aborts_counterexample:
  "raised (nlp_process_documents (\<lambda>i t. Inr ''en'') (\<lambda>t. Inl ServiceError) (\<lambda>i. i) (\<lambda>n. False)
      [[''url'' \<mapsto> VStr (str ''u1''), ''content'' \<mapsto> VStr (str ''first post'')],
       [''url'' \<mapsto> VStr (str ''u2''), ''content'' \<mapsto> VStr (str ''second post'')]]
      \<lparr>docs = [], attempts = 0\<rparr>) = Some ServiceError
   \<and> enriched (nlp_process_documents (\<lambda>i t. Inr ''en'') (\<lambda>t. Inl ServiceError) (\<lambda>i. i) (\<lambda>n. False)
      [[''url'' \<mapsto> VStr (str ''u1''), ''content'' \<mapsto> VStr (str ''first post'')],
       [''url'' \<mapsto> VStr (str ''u2''), ''content'' \<mapsto> VStr (str ''second post'')]]
      \<lparr>docs = [], attempts = 0\<rparr>) = \<lparr>docs = [], attempts = 0\<rparr>
   \<and> processed_count (nlp_process_documents (\<lambda>i t. Inr ''en'') (\<lambda>t. Inl ServiceError) (\<lambda>i. i)
      (\<lambda>n. False)
      [[''url'' \<mapsto> VStr (str ''u1''), ''content'' \<mapsto> VStr (str ''first post'')],
       [''url'' \<mapsto> VStr (str ''u2''), ''content'' \<mapsto> VStr (str ''second post'')]]
      \<lparr>docs = [], attempts = 0\<rparr>) = 0"
  by (simp add: nlp_process_documents_def enriched_doc_def get_def)

theorem enricher_model_errors_witness:
  "(\<exists>edoc. enriched_doc (\<lambda>t. Inl LangDetectException) (\<lambda>t. Inr 0) 5
        [''url'' \<mapsto> VStr (str ''u1''), ''content'' \<mapsto> VStr (str ''12345 6789'')] = Inr edoc
      \<and> edoc ''language'' = Some (VStr (str ''unknown''))
      \<and> enrich_loop (\<lambda>i t. Inl LangDetectException) (\<lambda>t. Inr 0) (\<lambda>i. 5) (\<lambda>n. False) 0
          [[''url'' \<mapsto> VStr (str ''u1''), ''content'' \<mapsto> VStr (str ''12345 6789'')],
           [''url'' \<mapsto> VStr (str ''u2''), ''content'' \<mapsto> VStr (str ''second post'')]]
          \<lparr>enriched = \<lparr>docs = [], attempts = 0\<rparr>, processed_count = 0, nlp_logged = [],
            raised = None\<rparr>
        = enrich_loop (\<lambda>i t. Inl LangDetectException) (\<lambda>t. Inr 0) (\<lambda>i. 5) (\<lambda>n. False) 1
          [[''url'' \<mapsto> VStr (str ''u2''), ''content'' \<mapsto> VStr (str ''second post'')]]
          (save_enriched (\<lambda>n. False)
             [''url'' \<mapsto> VStr (str ''u1''), ''content'' \<mapsto> VStr (str ''12345 6789'')] edoc
             \<lparr>enriched = \<lparr>docs = [], attempts = 0\<rparr>, processed_count = 0, nlp_logged = [],
               raised = None\<rparr>))
   \<and> enrich_loop (\<lambda>i t. Inr ''en'') (\<lambda>t. Inl ServiceError) (\<lambda>i. 5) (\<lambda>n. False) 0
          [[''url'' \<mapsto> VStr (str ''u1''), ''content'' \<mapsto> VStr (str ''first post'')],
           [''url'' \<mapsto> VStr (str ''u2''), ''content'' \<mapsto> VStr (str ''second post'')]]
          \<lparr>enriched = \<lparr>docs = [], attempts = 0\<rparr>, processed_count = 0, nlp_logged = [],
            raised = None\<rparr>
      = \<lparr>enriched = \<lparr>docs = [], attempts = 0\<rparr>, processed_count = 0, nlp_logged = [],
            raised = Some ServiceError\<rparr>"
proof (intro conjI)
  show "\<exists>edoc. enriched_doc (\<lambda>t. Inl LangDetectException) (\<lambda>t. Inr 0) 5
        [''url'' \<mapsto> VStr (str ''u1''), ''content'' \<mapsto> VStr (str ''12345 6789'')] = Inr edoc
      \<and> edoc ''language'' = Some (VStr (str ''unknown''))
      \<and> enrich_loop (\<lambda>i t. Inl LangDetectException) (\<lambda>t. Inr 0) (\<lambda>i. 5) (\<lambda>n. False) 0
          [[''url'' \<mapsto> VStr (str ''u1''), ''content'' \<mapsto> VStr (str ''12345 6789'')],
           [''url'' \<mapsto> VStr (str ''u2''), ''content'' \<mapsto> VStr (str ''second post'')]]
          \<lparr>enriched = \<lparr>docs = [], attempts = 0\<rparr>, processed_count = 0, nlp_logged = [],
            raised = None\<rparr>
        = enrich_loop (\<lambda>i t. Inl LangDetectException) (\<lambda>t. Inr 0) (\<lambda>i. 5) (\<lambda>n. False) 1
          [[''url'' \<mapsto> VStr (str ''u2''), ''content'' \<mapsto> VStr (str ''second post'')]]
          (save_enriched (\<lambda>n. False)
             [''url'' \<mapsto> VStr (str ''u1''), ''content'' \<mapsto> VStr (str ''12345 6789'')] edoc
             \<lparr>enriched = \<lparr>docs = [], attempts = 0\<rparr>, processed_count = 0, nlp_logged = [],
               raised = None\<rparr>)"
    using enricher_model_errors [where detect = "\<lambda>i t. Inl LangDetectException"
        and textblob = "\<lambda>t. Inr 0" and now = "\<lambda>i. 5" and fails = "\<lambda>n. False" and i = 0
        and doc = "[''url'' \<mapsto> VStr (str ''u1''), ''content'' \<mapsto> VStr (str ''12345 6789'')]"
        and c = "str ''12345 6789''" and p = 0
        and rest = "[[''url'' \<mapsto> VStr (str ''u2''), ''content'' \<mapsto> VStr (str ''second post'')]]"
        and st = "\<lparr>enriched = \<lparr>docs = [], attempts = 0\<rparr>, processed_count = 0,
            nlp_logged = [], raised = None\<rparr>"]
    by (simp add: get_def)
  show "enrich_loop (\<lambda>i t. Inr ''en'') (\<lambda>t. Inl ServiceError) (\<lambda>i. 5) (\<lambda>n. False) 0
          [[''url'' \<mapsto> VStr (str ''u1''), ''content'' \<mapsto> VStr (str ''first post'')],
           [''url'' \<mapsto> VStr (str ''u2''), ''content'' \<mapsto> VStr (str ''second post'')]]
          \<lparr>enriched = \<lparr>docs = [], attempts = 0\<rparr>, processed_count = 0, nlp_logged = [],
            raised = None\<rparr>
      = \<lparr>enriched = \<lparr>docs = [], attempts = 0\<rparr>, processed_count = 0, nlp_logged = [],
            raised = Some ServiceError\<rparr>"
    using enricher_model_errors [where detect = "\<lambda>i t. Inr ''en''"
        and textblob = "\<lambda>t. Inl ServiceError" and now = "\<lambda>i. 5" and fails = "\<lambda>n. False"
        and i = 0 and lang = "''en''" and e = ServiceError
        and doc = "[''url'' \<mapsto> VStr (str ''u1''), ''content'' \<mapsto> VStr (str ''first post'')]"
        and c = "str ''first post''"
        and rest = "[[''url'' \<mapsto> VStr (str ''u2''), ''content'' \<mapsto> VStr (str ''second post'')]]"
        and st = "\<lparr>enriched = \<lparr>docs = [], attempts = 0\<rparr>, processed_count = 0,
            nlp_logged = [], raised = None\<rparr>"]
    by (simp add: get_def)
qed

section \<open>Re-running a stage\<close>

lemma keyed_Cons [simp]: "keyed ((u, d) # ws) \<longleftrightarrow> d ''url'' = Some u \<and> keyed ws"
  by (simp add: keyed_def)

lemma keyed_Nil [simp]: "keyed []"
  by (simp add: keyed_def)

lemma map_add_twice: "(x ++ m) ++ m = x ++ (m :: document)"
  by (rule ext) (simp add: map_add_def split: option.splits)

lemma merged_url: "keyed ws \<Longrightarrow> merged k ws ''url'' = None \<or> merged k ws ''url'' = Some k"
  by (induction ws) (auto simp: map_add_def split: option.splits if_splits)

lemma key_of_merged: "keyed ws \<Longrightarrow> key_of (x ++ merged (key_of x) ws) = key_of x"
  using merged_url [of ws "key_of x"]
  by (auto simp: key_of_def get_def map_add_def split: option.splits)

lemma set_first_map:
  "distinct (map key_of c) \<Longrightarrow>
     set_first u d c = map (\<lambda>x. if key_of x = u then x ++ d else x) c"
proof (induction c)
  case Nil
  then show ?case by simp
next
  case (Cons x xs)
  show ?case
  proof (cases "key_of x = u")
    case True
    then have "u \<notin> set (map key_of xs)" using Cons.prems by auto
    then have "map (\<lambda>x. if key_of x = u then x ++ d else x) xs = xs"
      by (intro map_idI) auto
    then show ?thesis using True by simp
  next
    case False
    then show ?thesis using Cons by simp
  qed
qed

lemma upsert_keys:
  "d ''url'' = Some u \<Longrightarrow>
     map key_of (snd (upsert u d c))
       = (if u \<in> set (map key_of c) then map key_of c else map key_of c @ [u])"
  by (simp add: upsert_def keys_set_first key_of_merge)

lemma upsert_distinct:
  "d ''url'' = Some u \<Longrightarrow> distinct (map key_of c) \<Longrightarrow>
     distinct (map key_of (snd (upsert u d c)))"
  by (simp add: upsert_keys)

lemma apply_writes_distinct:
  "keyed ws \<Longrightarrow> distinct (map key_of c) \<Longrightarrow> distinct (map key_of (apply_writes ws c))"
  by (induction ws arbitrary: c) (auto simp: upsert_distinct)

lemma apply_writes_keys_mono:
  "keyed ws \<Longrightarrow> set (map key_of c) \<subseteq> set (map key_of (apply_writes ws c))"
proof (induction ws arbitrary: c)
  case Nil
  then show ?case by simp
next
  case (Cons w ws)
  obtain u d where w: "w = (u, d)" by (cases w)
  have k: "d ''url'' = Some u" and r: "keyed ws" using Cons.prems w by simp_all
  have "set (map key_of c) \<subseteq> set (map key_of (snd (upsert u d c)))"
    using k by (auto simp: upsert_keys simp del: set_map)
  also have "\<dots> \<subseteq> set (map key_of (apply_writes ws (snd (upsert u d c))))"
    by (rule Cons.IH [OF r])
  finally show ?case using w by simp
qed

lemma apply_writes_keys_in:
  "keyed ws \<Longrightarrow> fst ` set ws \<subseteq> set (map key_of (apply_writes ws c))"
proof (induction ws arbitrary: c)
  case Nil
  then show ?case by simp
next
  case (Cons w ws)
  obtain u d where w: "w = (u, d)" by (cases w)
  have k: "d ''url'' = Some u" and r: "keyed ws" using Cons.prems w by simp_all
  have "u \<in> set (map key_of (snd (upsert u d c)))"
    using k by (auto simp: upsert_keys simp del: set_map)
  then have "u \<in> set (map key_of (apply_writes ws (snd (upsert u d c))))"
    using apply_writes_keys_mono [OF r] by blast
  then show ?case
    using Cons.IH [OF r, of "snd (upsert u d c)"] w by simp
qed

lemma fresh_none: "fst ` set ws \<subseteq> K \<Longrightarrow> fresh K ws = []"
  by (induction ws arbitrary: K) auto

lemma fresh_fixed:
  "keyed ws \<Longrightarrow> x \<in> set (fresh K ws) \<Longrightarrow>
     key_of x \<notin> K \<and> x ++ merged (key_of x) ws = x"
proof (induction ws arbitrary: K)
  case Nil
  then show ?case by simp
next
  case (Cons w ws)
  obtain u d where w: "w = (u, d)" by (cases w)
  have k: "d ''url'' = Some u" and r: "keyed ws" using Cons.prems(1) w by simp_all
  show ?case
  proof (cases "u \<in> K")
    case True
    then have "x \<in> set (fresh K ws)" using Cons.prems(2) w by simp
    then have "key_of x \<notin> K \<and> x ++ merged (key_of x) ws = x"
      by (rule Cons.IH [OF r])
    then show ?thesis using True w by auto
  next
    case False
    let ?y = "[''url'' \<mapsto> u] ++ d ++ merged u ws"
    from Cons.prems(2) w False
    consider "x = ?y" | "x \<in> set (fresh (insert u K) ws)" by auto
    then show ?thesis
    proof cases
      case 1
      have "key_of (d ++ merged u ws) = u"
        using key_of_merged [OF r, of d] k by (simp add: key_of_self)
      then have ky: "key_of ?y = u"
        by (auto simp: key_of_def get_def map_add_def split: option.splits)
      have "?y ++ (d ++ merged u ws) = ?y"
        using map_add_twice [of "[''url'' \<mapsto> u]" "d ++ merged u ws"] by simp
      then show ?thesis using 1 ky False w by simp
    next
      case 2
      then have "key_of x \<notin> insert u K \<and> x ++ merged (key_of x) ws = x"
        by (rule Cons.IH [OF r])
      then show ?thesis using w by auto
    qed
  qed
qed

lemma apply_writes_shape:
  "keyed ws \<Longrightarrow> distinct (map key_of c) \<Longrightarrow>
     apply_writes ws c
       = map (\<lambda>x. x ++ merged (key_of x) ws) c @ fresh (set (map key_of c)) ws"
proof (induction ws arbitrary: c)
  case Nil
  then show ?case by simp
next
  case (Cons w ws)
  obtain u d where w: "w = (u, d)" by (cases w)
  have k: "d ''url'' = Some u" and r: "keyed ws" using Cons.prems(1) w by simp_all
  have dc: "distinct (map key_of (snd (upsert u d c)))"
    using k Cons.prems(2) by (rule upsert_distinct)
  note ih = Cons.IH [OF r dc]
  show ?case
  proof (cases "u \<in> set (map key_of c)")
    case True
    have c1: "snd (upsert u d c) = map (\<lambda>x. if key_of x = u then x ++ d else x) c"
      using True Cons.prems(2) by (simp add: upsert_def set_first_map)
    have ks: "map key_of (snd (upsert u d c)) = map key_of c"
      using True k by (simp add: upsert_keys)
    have m: "map (\<lambda>x. x ++ merged (key_of x) ws) (snd (upsert u d c))
        = map (\<lambda>x. x ++ merged (key_of x) ((u, d) # ws)) c"
      unfolding c1 using k by (auto simp: key_of_merge)
    have f: "fresh (set (map key_of c)) ((u, d) # ws) = fresh (set (map key_of c)) ws"
      using True by simp
    show ?thesis
      using ih unfolding w apply_writes.simps m ks f by simp
  next
    case False
    have c1: "snd (upsert u d c) = c @ [[''url'' \<mapsto> u] ++ d]"
      using False by (simp add: upsert_def)
    have ks: "set (map key_of (snd (upsert u d c))) = insert u (set (map key_of c))"
      using False k by (simp add: upsert_keys del: set_map)
    have m1: "map (\<lambda>x. x ++ merged (key_of x) ws) c
        = map (\<lambda>x. x ++ merged (key_of x) ((u, d) # ws)) c"
      using False by (intro map_cong) auto
    have kn: "key_of ([''url'' \<mapsto> u] ++ d) = u"
      using k by (rule key_of_merge)
    have f: "fresh (set (map key_of c)) ((u, d) # ws)
        = ([''url'' \<mapsto> u] ++ d ++ merged u ws) # fresh (insert u (set (map key_of c))) ws"
      using False by simp
    show ?thesis
      using ih unfolding w apply_writes.simps ks f c1 by (simp add: m1 kn)
  qed
qed

lemma apply_writes_idem:
  assumes k: "keyed ws" and d: "distinct (map key_of c)"
  shows "apply_writes ws (apply_writes ws c) = apply_writes ws c"
proof -
  let ?c = "apply_writes ws c"
  have d1: "distinct (map key_of ?c)" using k d by (rule apply_writes_distinct)
  have "fst ` set ws \<subseteq> set (map key_of ?c)" using k by (rule apply_writes_keys_in)
  then have f: "fresh (set (map key_of ?c)) ws = []" by (rule fresh_none)
  have fixed: "x ++ merged (key_of x) ws = x" if "x \<in> set ?c" for x
  proof -
    from that have "x \<in> set (map (\<lambda>x. x ++ merged (key_of x) ws) c)
        \<or> x \<in> set (fresh (set (map key_of c)) ws)"
      unfolding apply_writes_shape [OF k d] by simp
    then show ?thesis
    proof
      assume "x \<in> set (map (\<lambda>x. x ++ merged (key_of x) ws) c)"
      then obtain y where y: "x = y ++ merged (key_of y) ws" by auto
      have "key_of x = key_of y" unfolding y using k by (rule key_of_merged)
      then show ?thesis unfolding y by (simp add: map_add_twice)
    next
      assume "x \<in> set (fresh (set (map key_of c)) ws)"
      with k show ?thesis by (blast dest: fresh_fixed)
    qed
  qed
  have "apply_writes ws ?c = map (\<lambda>x. x ++ merged (key_of x) ws) ?c"
    using apply_writes_shape [OF k d1] f by simp
  also have "\<dots> = ?c" by (intro map_idI fixed)
  finally show ?thesis .
qed


lemma keyed_writes: "keyed (writes ds)"
  by (induction ds) (auto split: option.splits)

lemma save_one_docs:
  "docs (saved (save_one (\<lambda>n. False) d st))
     = (case d ''url'' of None \<Rightarrow> docs (saved st)
        | Some u \<Rightarrow> snd (upsert u d (docs (saved st))))"
  by (simp add: save_one_def update_one_ok split: option.splits)

lemma save_loop_docs:
  "docs (saved (save_loop (\<lambda>n. False) ds st)) = apply_writes (writes ds) (docs (saved st))"
  by (induction ds arbitrary: st) (auto simp: save_one_docs split: option.splits)

lemma enriched_doc_url:
  "enriched_doc detect textblob t d = Inr edoc \<Longrightarrow>
     edoc ''url'' = Some (get d ''url'' (VStr []))"
  by (auto simp: enriched_doc_def Let_def split: sum.splits
      simp del: detect_language.simps analyze_sentiment.simps)

lemma keyed_ewrites: "keyed (ewrites detect textblob now i ds)"
proof (induction ds arbitrary: i)
  case Nil
  then show ?case by simp
next
  case (Cons d ds)
  show ?case
  proof (cases "enriched_doc (detect i) textblob (now i) d")
    case (Inl e)
    then show ?thesis by simp
  next
    case (Inr edoc)
    then show ?thesis
      using Cons.IH [of "Suc i"] enriched_doc_url [OF Inr]
      by (auto simp: get_def split: option.splits)
  qed
qed

lemma save_enriched_docs:
  "docs (enriched (save_enriched (\<lambda>n. False) d edoc st))
     = (case d ''url'' of None \<Rightarrow> docs (enriched st)
        | Some u \<Rightarrow> snd (upsert u edoc (docs (enriched st))))"
  by (simp add: save_enriched_def update_one_ok split: option.splits)

lemma enrich_loop_docs:
  "docs (enriched (enrich_loop detect textblob now (\<lambda>n. False) i ds st))
     = apply_writes (ewrites detect textblob now i ds) (docs (enriched st))"
proof (induction ds arbitrary: i st)
  case Nil
  then show ?case by simp
next
  case (Cons d ds)
  show ?case
  proof (cases "enriched_doc (detect i) textblob (now i) d")
    case (Inl e)
    then show ?thesis by simp
  next
    case (Inr edoc)
    then show ?thesis
      using Cons.IH [of "Suc i" "save_enriched (\<lambda>n. False) d edoc st"]
      by (simp add: save_enriched_docs split: option.splits)
  qed
qed

lemma key_of_without_run_fields: "key_of (without_run_fields x) = key_of x"
  by (simp add: key_of_def get_def without_run_fields_def)

lemma keys_without_run_fields: "map key_of (map without_run_fields c) = map key_of c"
  by (simp add: key_of_without_run_fields)

lemma without_run_fields_add: "without_run_fields (x ++ d) = without_run_fields x ++ without_run_fields d"
  by (rule ext) (simp add: without_run_fields_def map_add_def split: option.splits)

lemma without_run_fields_set_first:
  "map without_run_fields (set_first u d c) = set_first u (without_run_fields d) (map without_run_fields c)"
  by (induction c) (simp_all add: key_of_without_run_fields without_run_fields_add)

lemma without_run_fields_new:
  "without_run_fields ([''url'' \<mapsto> u] ++ d) = [''url'' \<mapsto> u] ++ without_run_fields d"
  by (rule ext) (simp add: without_run_fields_def map_add_def)

lemma without_run_fields_upsert:
  "map without_run_fields (snd (upsert u d c))
     = snd (upsert u (without_run_fields d) (map without_run_fields c))"
proof -
  have "map key_of (map without_run_fields c) = map key_of c"
    by (rule keys_without_run_fields)
  then have "u \<in> set (map key_of (map without_run_fields c)) \<longleftrightarrow> u \<in> set (map key_of c)"
    by simp
  then show ?thesis
    unfolding upsert_def
    by (simp add: without_run_fields_set_first without_run_fields_new del: set_map map_map)
qed

lemma without_run_fields_apply_writes:
  "map without_run_fields (apply_writes ws c)
     = apply_writes (map (\<lambda>(u, d). (u, without_run_fields d)) ws) (map without_run_fields c)"
  by (induction ws arbitrary: c) (auto simp: without_run_fields_upsert)

lemma keyed_without_run_fields: "keyed ws \<Longrightarrow> keyed (map (\<lambda>(u, d). (u, without_run_fields d)) ws)"
  by (induction ws) (auto simp: without_run_fields_def)

lemma detect_language_returns:
  "(\<And>t e. detect t = Inl e \<Longrightarrow> e = LangDetectException) \<Longrightarrow>
     \<exists>l. fst (detect_language detect (VStr s)) = Inr l"
proof (cases "s = [] \<or> length s < 3")
  case True
  then show ?thesis by auto
next
  case False
  assume ok: "\<And>t e. detect t = Inl e \<Longrightarrow> e = LangDetectException"
  show ?thesis
  proof (cases "detect (take 1000 s)")
    case (Inl e)
    then have "e = LangDetectException" by (rule ok)
    then show ?thesis using False Inl by simp
  next
    case (Inr l)
    then show ?thesis using False by simp
  qed
qed

lemma detect_language_other:
  assumes "\<And>s. v \<noteq> VStr s"
  shows "detect_language detect1 v = detect_language detect2 v"
proof (cases v)
  case (VStr x)
  then show ?thesis using assms by blast
qed simp_all

lemma enriched_doc_stable:
  assumes ok1: "\<And>t e. detect1 t = Inl e \<Longrightarrow> e = LangDetectException"
    and ok2: "\<And>t e. detect2 t = Inl e \<Longrightarrow> e = LangDetectException"
  shows "map_sum id without_run_fields (enriched_doc detect1 textblob t1 d)
     = map_sum id without_run_fields (enriched_doc detect2 textblob t2 d)"
proof (cases "\<exists>s. get d ''content'' (VStr []) = VStr s")
  case True
  then obtain s where s: "get d ''content'' (VStr []) = VStr s" by blast
  obtain l1 where l1: "fst (detect_language detect1 (VStr s)) = Inr l1"
    using detect_language_returns [of detect1 s] ok1 by blast
  obtain l2 where l2: "fst (detect_language detect2 (VStr s)) = Inr l2"
    using detect_language_returns [of detect2 s] ok2 by blast
  have a: "analyze_sentiment textblob (VStr s) l1 = analyze_sentiment textblob (VStr s) l2"
    by simp
  show ?thesis
    using s l1 l2 a
    by (cases "analyze_sentiment textblob (VStr s) l2")
       (simp_all add: enriched_doc_def Let_def without_run_fields_def
          del: detect_language.simps analyze_sentiment.simps)
next
  case False
  then have "detect_language detect1 (get d ''content'' (VStr []))
      = detect_language detect2 (get d ''content'' (VStr []))"
    by (intro detect_language_other) auto
  then show ?thesis
    by (auto simp: enriched_doc_def Let_def without_run_fields_def split: sum.splits
        simp del: detect_language.simps analyze_sentiment.simps)
qed

lemma ewrites_stable:
  assumes ok1: "detection_failures_only detect1" and ok2: "detection_failures_only detect2"
  shows "map (\<lambda>(u, d). (u, without_run_fields d)) (ewrites detect1 textblob now1 i ds)
     = map (\<lambda>(u, d). (u, without_run_fields d)) (ewrites detect2 textblob now2 i ds)"
proof (induction ds arbitrary: i)
  case Nil
  then show ?case by simp
next
  case (Cons d ds)
  have e: "map_sum id without_run_fields (enriched_doc (detect1 i) textblob (now1 i) d)
      = map_sum id without_run_fields (enriched_doc (detect2 i) textblob (now2 i) d)"
    using ok1 ok2 by (intro enriched_doc_stable) (auto simp: detection_failures_only_def)
  show ?case
    using e Cons.IH [of "Suc i"]
    by (cases "enriched_doc (detect1 i) textblob (now1 i) d";
        cases "enriched_doc (detect2 i) textblob (now2 i) d")
       (auto split: option.splits)
qed

text \<open>
  Claim C1 (as amended). When no store write fails and the collection a stage writes to
  holds at most one document per \<open>url\<close>, running the Normalizer a second time on the
  same raw collection leaves the preprocessed collection exactly as the first run left
  it, still with at most one document per \<open>url\<close>. Running the Enricher a second time on
  the same preprocessed collection keeps at most one document per \<open>url\<close> and, when the
  language detector raises nothing but its detection failure, leaves the enriched
  collection as the first run left it except for two fields of each document:
  \<open>enriched_at\<close>, which the second run overwrites with its own clock readings, and
  \<open>language\<close>, which the second run detects again with a detector that is randomised.
\<close>

theorem rerun_idempotent:
  "distinct (map key_of (docs s)) \<longrightarrow>
     docs (saved (normalizer_run stop_words lemmatize ulower (\<lambda>n. False) raw
             (saved (normalizer_run stop_words lemmatize ulower (\<lambda>n. False) raw s))))
       = docs (saved (normalizer_run stop_words lemmatize ulower (\<lambda>n. False) raw s))
   \<and> distinct (map key_of
        (docs (saved (normalizer_run stop_words lemmatize ulower (\<lambda>n. False) raw s))))
   \<and> distinct (map key_of
        (docs (enriched (nlp_process_documents detect1 textblob now1 (\<lambda>n. False) preprocessed s))))
   \<and> (detection_failures_only detect1 \<and> detection_failures_only detect2 \<longrightarrow>
        map without_run_fields
          (docs (enriched (nlp_process_documents detect2 textblob now2 (\<lambda>n. False) preprocessed
             (enriched (nlp_process_documents detect1 textblob now1 (\<lambda>n. False) preprocessed s)))))
        = map without_run_fields
          (docs (enriched (nlp_process_documents detect1 textblob now1 (\<lambda>n. False) preprocessed s))))"
proof
  assume d: "distinct (map key_of (docs s))"
  let ?ws = "writes (process_documents stop_words lemmatize ulower raw)"
  have n1: "docs (saved (normalizer_run stop_words lemmatize ulower (\<lambda>n. False) raw t))
      = apply_writes ?ws (docs t)" for t
    by (simp add: normalizer_run_def save_to_mongodb_loop save_loop_docs)
  have a: "docs (saved (normalizer_run stop_words lemmatize ulower (\<lambda>n. False) raw
             (saved (normalizer_run stop_words lemmatize ulower (\<lambda>n. False) raw s))))
       = docs (saved (normalizer_run stop_words lemmatize ulower (\<lambda>n. False) raw s))"
    unfolding n1 using keyed_writes d by (rule apply_writes_idem)
  have b: "distinct (map key_of
      (docs (saved (normalizer_run stop_words lemmatize ulower (\<lambda>n. False) raw s))))"
    unfolding n1 using keyed_writes d by (rule apply_writes_distinct)
  let ?e1 = "ewrites detect1 textblob now1 0 preprocessed"
  let ?e2 = "ewrites detect2 textblob now2 0 preprocessed"
  let ?w = "map (\<lambda>(u, d). (u, without_run_fields d)) ?e1"
  have q: "docs (enriched (nlp_process_documents detect textblob now (\<lambda>n. False) preprocessed t))
      = apply_writes (ewrites detect textblob now 0 preprocessed) (docs t)" for detect now t
    by (simp add: nlp_process_documents_def enrich_loop_docs)
  have e: "distinct (map key_of
        (docs (enriched (nlp_process_documents detect1 textblob now1 (\<lambda>n. False) preprocessed s))))"
    unfolding q using keyed_ewrites d by (rule apply_writes_distinct)
  have c: "map without_run_fields
          (docs (enriched (nlp_process_documents detect2 textblob now2 (\<lambda>n. False) preprocessed
             (enriched (nlp_process_documents detect1 textblob now1 (\<lambda>n. False) preprocessed s)))))
        = map without_run_fields
          (docs (enriched (nlp_process_documents detect1 textblob now1 (\<lambda>n. False) preprocessed s)))"
    if ok: "detection_failures_only detect1 \<and> detection_failures_only detect2"
  proof -
    have w2: "map (\<lambda>(u, d). (u, without_run_fields d)) ?e2 = ?w"
      using ok by (intro ewrites_stable) auto
    have kw: "keyed ?w"
      using keyed_ewrites by (rule keyed_without_run_fields)
    have ds: "distinct (map key_of (map without_run_fields (docs s)))"
      using d by (simp only: keys_without_run_fields)
    have "map without_run_fields (apply_writes ?e2 (apply_writes ?e1 (docs s)))
        = apply_writes ?w (apply_writes ?w (map without_run_fields (docs s)))"
      by (simp only: without_run_fields_apply_writes w2)
    also have "\<dots> = apply_writes ?w (map without_run_fields (docs s))"
      using kw ds by (rule apply_writes_idem)
    also have "\<dots> = map without_run_fields (apply_writes ?e1 (docs s))"
      by (simp only: without_run_fields_apply_writes)
    finally show ?thesis
      unfolding q .
  qed
  show "docs (saved (normalizer_run stop_words lemmatize ulower (\<lambda>n. False) raw
             (saved (normalizer_run stop_words lemmatize ulower (\<lambda>n. False) raw s))))
       = docs (saved (normalizer_run stop_words lemmatize ulower (\<lambda>n. False) raw s))
   \<and> distinct (map key_of
        (docs (saved (normalizer_run stop_words lemmatize ulower (\<lambda>n. False) raw s))))
   \<and> distinct (map key_of
        (docs (enriched (nlp_process_documents detect1 textblob now1 (\<lambda>n. False) preprocessed s))))
   \<and> (detection_failures_only detect1 \<and> detection_failures_only detect2 \<longrightarrow>
        map without_run_fields
          (docs (enriched (nlp_process_documents detect2 textblob now2 (\<lambda>n. False) preprocessed
             (enriched (nlp_process_documents detect1 textblob now1 (\<lambda>n. False) preprocessed s)))))
        = map without_run_fields
          (docs (enriched (nlp_process_documents detect1 textblob now1 (\<lambda>n. False) preprocessed s))))"
    using a b c e by blast
qed

theorem rerun_idempotent_witness:
  "docs (saved (normalizer_run {str ''the''} (\<lambda>token. token) (\<lambda>whole i. [whole ! i])
             (\<lambda>n. False)
             [[''url'' \<mapsto> VStr (str ''u1''), ''title'' \<mapsto> VStr (str ''First title'')],
              [''url'' \<mapsto> VStr (str ''u1''), ''title'' \<mapsto> VStr (str ''Second title'')]]
             (saved (normalizer_run {str ''the''} (\<lambda>token. token) (\<lambda>whole i. [whole ! i])
                (\<lambda>n. False)
                [[''url'' \<mapsto> VStr (str ''u1''), ''title'' \<mapsto> VStr (str ''First title'')],
                 [''url'' \<mapsto> VStr (str ''u1''), ''title'' \<mapsto> VStr (str ''Second title'')]]
                \<lparr>docs = [], attempts = 0\<rparr>))))
       = docs (saved (normalizer_run {str ''the''} (\<lambda>token. token) (\<lambda>whole i. [whole ! i])
             (\<lambda>n. False)
             [[''url'' \<mapsto> VStr (str ''u1''), ''title'' \<mapsto> VStr (str ''First title'')],
              [''url'' \<mapsto> VStr (str ''u1''), ''title'' \<mapsto> VStr (str ''Second title'')]]
             \<lparr>docs = [], attempts = 0\<rparr>))
   \<and> distinct (map key_of (docs (saved (normalizer_run {str ''the''} (\<lambda>token. token)
             (\<lambda>whole i. [whole ! i]) (\<lambda>n. False)
             [[''url'' \<mapsto> VStr (str ''u1''), ''title'' \<mapsto> VStr (str ''First title'')],
              [''url'' \<mapsto> VStr (str ''u1''), ''title'' \<mapsto> VStr (str ''Second title'')]]
             \<lparr>docs = [], attempts = 0\<rparr>))))
   \<and> distinct (map key_of
        (docs (enriched (nlp_process_documents (\<lambda>i t. Inr ''cy'') (\<lambda>t. Inr 0) (\<lambda>i. 1)
           (\<lambda>n. False) [[''url'' \<mapsto> VStr (str ''u1''), ''content'' \<mapsto> VStr (str ''bad stuff'')]]
           \<lparr>docs = [], attempts = 0\<rparr>))))
   \<and> map without_run_fields
        (docs (enriched (nlp_process_documents (\<lambda>i t. Inr ''en'') (\<lambda>t. Inr 0) (\<lambda>i. 2)
           (\<lambda>n. False) [[''url'' \<mapsto> VStr (str ''u1''), ''content'' \<mapsto> VStr (str ''bad stuff'')]]
           (enriched (nlp_process_documents (\<lambda>i t. Inr ''cy'') (\<lambda>t. Inr 0) (\<lambda>i. 1)
              (\<lambda>n. False) [[''url'' \<mapsto> VStr (str ''u1''), ''content'' \<mapsto> VStr (str ''bad stuff'')]]
              \<lparr>docs = [], attempts = 0\<rparr>)))))
       = map without_run_fields
        (docs (enriched (nlp_process_documents (\<lambda>i t. Inr ''cy'') (\<lambda>t. Inr 0) (\<lambda>i. 1)
           (\<lambda>n. False) [[''url'' \<mapsto> VStr (str ''u1''), ''content'' \<mapsto> VStr (str ''bad stuff'')]]
           \<lparr>docs = [], attempts = 0\<rparr>)))"
proof -
  have d: "distinct (map key_of (docs \<lparr>docs = [], attempts = 0\<rparr>))"
    by simp
  have ok: "detection_failures_only (\<lambda>i t. Inr ''cy'')
      \<and> detection_failures_only (\<lambda>i t. Inr ''en'')"
    by (simp add: detection_failures_only_def)
  note t = rerun_idempotent [where s = "\<lparr>docs = [], attempts = 0\<rparr>"
        and stop_words = "{str ''the''}" and lemmatize = "\<lambda>token. token"
        and ulower = "\<lambda>whole i. [whole ! i]"
        and raw = "[[''url'' \<mapsto> VStr (str ''u1''), ''title'' \<mapsto> VStr (str ''First title'')],
              [''url'' \<mapsto> VStr (str ''u1''), ''title'' \<mapsto> VStr (str ''Second title'')]]"
        and ?detect1.0 = "\<lambda>i t. Inr ''cy''" and ?detect2.0 = "\<lambda>i t. Inr ''en''"
        and textblob = "\<lambda>t. Inr 0"
        and ?now1.0 = "\<lambda>i. 1" and ?now2.0 = "\<lambda>i. 2"
        and preprocessed = "[[''url'' \<mapsto> VStr (str ''u1''), ''content'' \<mapsto> VStr (str ''bad stuff'')]]"]
  show ?thesis
    using t d ok by blast
qed

text \<open>
  The claim has the enriched collection in the same final state after a second run of
  the Enricher: the second run, at a later time, changes \<open>enriched_at\<close>; and a detector
  that answers \<open>cy\<close> in the first run and \<open>en\<close> in the second changes \<open>language\<close>.
\<close>

theorem enricher_rerun_counterexample:
  "map (\<lambda>x. x ''enriched_at'')
     (docs (enriched (nlp_process_documents (\<lambda>i t. Inr ''en'') (\<lambda>t. Inr 0) (\<lambda>i. 1) (\<lambda>n. False)
        [[''url'' \<mapsto> VStr (str ''u1''), ''content'' \<mapsto> VStr (str ''bad stuff'')]]
        \<lparr>docs = [], attempts = 0\<rparr>))) = [Some (VTime 1)]
   \<and> map (\<lambda>x. x ''enriched_at'')
     (docs (enriched (nlp_process_documents (\<lambda>i t. Inr ''en'') (\<lambda>t. Inr 0) (\<lambda>i. 2) (\<lambda>n. False)
        [[''url'' \<mapsto> VStr (str ''u1''), ''content'' \<mapsto> VStr (str ''bad stuff'')]]
        (enriched (nlp_process_documents (\<lambda>i t. Inr ''en'') (\<lambda>t. Inr 0) (\<lambda>i. 1) (\<lambda>n. False)
           [[''url'' \<mapsto> VStr (str ''u1''), ''content'' \<mapsto> VStr (str ''bad stuff'')]]
           \<lparr>docs = [], attempts = 0\<rparr>))))) = [Some (VTime 2)]
   \<and> docs (enriched (nlp_process_documents (\<lambda>i t. Inr ''en'') (\<lambda>t. Inr 0) (\<lambda>i. 2) (\<lambda>n. False)
        [[''url'' \<mapsto> VStr (str ''u1''), ''content'' \<mapsto> VStr (str ''bad stuff'')]]
        (enriched (nlp_process_documents (\<lambda>i t. Inr ''en'') (\<lambda>t. Inr 0) (\<lambda>i. 1) (\<lambda>n. False)
           [[''url'' \<mapsto> VStr (str ''u1''), ''content'' \<mapsto> VStr (str ''bad stuff'')]]
           \<lparr>docs = [], attempts = 0\<rparr>))))
     \<noteq> docs (enriched (nlp_process_documents (\<lambda>i t. Inr ''en'') (\<lambda>t. Inr 0) (\<lambda>i. 1) (\<lambda>n. False)
        [[''url'' \<mapsto> VStr (str ''u1''), ''content'' \<mapsto> VStr (str ''bad stuff'')]]
        \<lparr>docs = [], attempts = 0\<rparr>))
   \<and> map (\<lambda>x. x ''language'')
     (docs (enriched (nlp_process_documents (\<lambda>i t. Inr ''cy'') (\<lambda>t. Inr 0) (\<lambda>i. 1) (\<lambda>n. False)
        [[''url'' \<mapsto> VStr (str ''u1''), ''content'' \<mapsto> VStr (str ''bad stuff'')]]
        \<lparr>docs = [], attempts = 0\<rparr>))) = [Some (VStr (str ''cy''))]
   \<and> map (\<lambda>x. x ''language'')
     (docs (enriched (nlp_process_documents (\<lambda>i t. Inr ''en'') (\<lambda>t. Inr 0) (\<lambda>i. 1) (\<lambda>n. False)
        [[''url'' \<mapsto> VStr (str ''u1''), ''content'' \<mapsto> VStr (str ''bad stuff'')]]
        (enriched (nlp_process_documents (\<lambda>i t. Inr ''cy'') (\<lambda>t. Inr 0) (\<lambda>i. 1) (\<lambda>n. False)
           [[''url'' \<mapsto> VStr (str ''u1''), ''content'' \<mapsto> VStr (str ''bad stuff'')]]
           \<lparr>docs = [], attempts = 0\<rparr>))))) = [Some (VStr (str ''en''))]"
proof -
  let ?d = "[''url'' \<mapsto> VStr (str ''u1''), ''content'' \<mapsto> VStr (str ''bad stuff'')]"
  let ?q1 = "nlp_process_documents (\<lambda>i t. Inr ''en'') (\<lambda>t. Inr 0) (\<lambda>i. 1) (\<lambda>n. False)
        [?d] \<lparr>docs = [], attempts = 0\<rparr>"
  let ?q2 = "nlp_process_documents (\<lambda>i t. Inr ''en'') (\<lambda>t. Inr 0) (\<lambda>i. 2) (\<lambda>n. False)
        [?d] (enriched ?q1)"
  let ?p1 = "nlp_process_documents (\<lambda>i t. Inr ''cy'') (\<lambda>t. Inr 0) (\<lambda>i. 1) (\<lambda>n. False)
        [?d] \<lparr>docs = [], attempts = 0\<rparr>"
  let ?p2 = "nlp_process_documents (\<lambda>i t. Inr ''en'') (\<lambda>t. Inr 0) (\<lambda>i. 1) (\<lambda>n. False)
        [?d] (enriched ?p1)"
  have a: "map (\<lambda>x. x ''enriched_at'') (docs (enriched ?q1)) = [Some (VTime 1)]"
    by (simp add: nlp_process_documents_def enriched_doc_def Let_def get_def save_enriched_def
        update_one_def upsert_def)
  have b: "map (\<lambda>x. x ''enriched_at'') (docs (enriched ?q2)) = [Some (VTime 2)]"
    by (simp add: nlp_process_documents_def enriched_doc_def Let_def get_def save_enriched_def
        update_one_def upsert_def key_of_def)
  have c: "docs (enriched ?q2) \<noteq> docs (enriched ?q1)"
  proof
    assume "docs (enriched ?q2) = docs (enriched ?q1)"
    then have "map (\<lambda>x. x ''enriched_at'') (docs (enriched ?q2))
        = map (\<lambda>x. x ''enriched_at'') (docs (enriched ?q1))"
      by (rule arg_cong)
    then show False
      unfolding a b by simp
  qed
  have l1: "map (\<lambda>x. x ''language'') (docs (enriched ?p1)) = [Some (VStr (str ''cy''))]"
    by (simp add: nlp_process_documents_def enriched_doc_def Let_def get_def save_enriched_def
        update_one_def upsert_def)
  have l2: "map (\<lambda>x. x ''language'') (docs (enriched ?p2)) = [Some (VStr (str ''en''))]"
    by (simp add: nlp_process_documents_def enriched_doc_def Let_def get_def save_enriched_def
        update_one_def upsert_def key_of_def)
  show ?thesis
    using a b c l1 l2 by (intro conjI)
qed


end
